theory Spec2Isabelle
  imports Main
begin

section \<open>Strings of the page and of the dataset\<close>

text \<open>
  A JavaScript string is a sequence of code units. The development covers the code units
  below 256 (Latin-1), written as \<^typ>\<open>char\<close>; \<open>length\<close> counts code units, as
  \<^verbatim>\<open>name.length\<close> does. Three facts of the language are written out for this range:
  the class \<^verbatim>\<open>\s\<close> (which is also what \<^verbatim>\<open>trim\<close> strips), \<^verbatim>\<open>toLowerCase\<close>, and the
  canonical form the \<^verbatim>\<open>i\<close> flag compares characters in (the upper-case letter, where
  there is one within the range).
\<close>

definition is_space :: "char \<Rightarrow> bool" where
  "is_space c = (of_char c \<in> {9, 10, 11, 12, 13, 32, 160 :: nat})"

definition lower_unit :: "char \<Rightarrow> char" where
  "lower_unit c =
     (let n = of_char c :: nat
      in if (65 \<le> n \<and> n \<le> 90) \<or> (192 \<le> n \<and> n \<le> 222 \<and> n \<noteq> 215)
         then char_of (n + 32) else c)"

definition toLowerCase :: "string \<Rightarrow> string" where
  "toLowerCase s = map lower_unit s"

definition canonicalize :: "char \<Rightarrow> char" where
  "canonicalize c =
     (let n = of_char c :: nat
      in if (97 \<le> n \<and> n \<le> 122) \<or> (224 \<le> n \<and> n \<le> 254 \<and> n \<noteq> 247)
         then char_of (n - 32) else c)"

text \<open>\<^verbatim>\<open>s.trim()\<close> and \<^verbatim>\<open>s.replace(/\s+/g, " ")\<close>.\<close>

definition trim :: "string \<Rightarrow> string" where
  "trim s = rev (dropWhile is_space (rev (dropWhile is_space s)))"

function collapse_ws :: "string \<Rightarrow> string" where
  "collapse_ws [] = []"
| "collapse_ws (c # s) =
     (if is_space c then CHR '' '' # collapse_ws (dropWhile is_space s)
      else c # collapse_ws s)"
  by pat_completeness auto
termination
  by (relation "measure length") (auto simp: length_dropWhile_le less_Suc_eq_le)

text \<open>\<^verbatim>\<open>text.slice(i, e)\<close> for \<open>i \<le> e\<close>.\<close>

definition slice :: "string \<Rightarrow> nat \<Rightarrow> nat \<Rightarrow> string" where
  "slice s i e = take (e - i) (drop i s)"

section \<open>The constants of the content script\<close>

definition WIKI_BASE :: string where
  "WIKI_BASE = ''https://en.wikipedia.org/wiki/List_of_people_named_in_the_Epstein_files#''"

definition SKIP_TAGS :: "string list" where
  "SKIP_TAGS = [''SCRIPT'', ''STYLE'', ''TEXTAREA'', ''INPUT'', ''SELECT'',
                ''CODE'', ''PRE'', ''NOSCRIPT'', ''IFRAME'', ''SVG'']"

definition HL_CLASS :: string where
  "HL_CLASS = ''epstein-highlight''"

record entry =
  name :: string
  anchor :: string

section \<open>Regular expressions: source text, parsing, matching\<close>

text \<open>
  \<^verbatim>\<open>escapeRegex\<close> puts a backslash before each of the fourteen syntax characters.
\<close>

definition syntax_chars :: "char list" where
  "syntax_chars = ''.*+?^${}()|[]'' @ [CHR 0x5C]"

definition escapeRegex :: "string \<Rightarrow> string" where
  "escapeRegex str = concat (map (\<lambda>c. if c \<in> set syntax_chars then [CHR 0x5C, c] else [c]) str)"

text \<open>\<^verbatim>\<open>s.replace(/ /g, "\\s+")\<close>: every space becomes the three characters \<^verbatim>\<open>\s+\<close>.\<close>

definition replace_space :: "string \<Rightarrow> string" where
  "replace_space s = concat (map (\<lambda>c. if c = CHR '' '' then [CHR 0x5C, CHR ''s'', CHR ''+''] else [c]) s)"

text \<open>
  \<^verbatim>\<open>s.replace(/\\ /g, "\\s+")\<close>, the replacement of the older variant: the pattern is a
  backslash followed by a space, replaced from left to right.
\<close>

fun replace_backslash_space :: "string \<Rightarrow> string" where
  "replace_backslash_space (a # b # s) =
     (if a = CHR 0x5C \<and> b = CHR '' '' then [CHR 0x5C, CHR ''s'', CHR ''+''] @ replace_backslash_space s
      else a # replace_backslash_space (b # s))"
| "replace_backslash_space s = s"

text \<open>\<^verbatim>\<open>parts.join("|")\<close>.\<close>

fun join_bar :: "string list \<Rightarrow> string" where
  "join_bar [] = []"
| "join_bar [p] = p"
| "join_bar (p # q # ps) = p @ CHR ''|'' # join_bar (q # ps)"

text \<open>
  The part of the pattern language that these sources can contain: one capturing group
  around a disjunction; each alternative is a sequence of terms; a term is an atom or an
  atom followed by \<^verbatim>\<open>+\<close>; an atom is a character, an escaped syntax character or the class
  \<^verbatim>\<open>\s\<close>. Any other source is refused (\<open>None\<close>, where the constructor may throw).
\<close>

datatype atom = Lit char | Space

datatype item = One atom | Plus atom

fun parse_body :: "string \<Rightarrow> bool \<Rightarrow> item list \<Rightarrow> item list list \<Rightarrow> item list list option" where
  "parse_body [] esc cur done = None"
| "parse_body (c # s) True cur done =
     (if c = CHR ''s'' then parse_body s False (One Space # cur) done
      else if c \<in> set syntax_chars then parse_body s False (One (Lit c) # cur) done
      else None)"
| "parse_body (c # s) False cur done =
     (if c = CHR 0x5C then parse_body s True cur done
      else if c = CHR ''|'' then parse_body s False [] (rev cur # done)
      else if c = CHR '')'' then (if s = [] then Some (rev (rev cur # done)) else None)
      else if c = CHR ''+'' then
        (case cur of One a # cur' \<Rightarrow> parse_body s False (Plus a # cur') done | _ \<Rightarrow> None)
      else if c \<in> set syntax_chars then None
      else parse_body s False (One (Lit c) # cur) done)"

fun parse_pattern :: "string \<Rightarrow> item list list option" where
  "parse_pattern [] = None"
| "parse_pattern (c # s) = (if c = CHR ''('' then parse_body s False [] [] else None)"

text \<open>
  A regular expression object: the alternatives of its group in order, the two flags the
  script uses, and the mutable \<^verbatim>\<open>lastIndex\<close>.
\<close>

record regexp =
  alts :: "item list list"
  ignoreCase :: bool
  global :: bool
  lastIndex :: nat

definition RegExp :: "string \<Rightarrow> string \<Rightarrow> regexp option" where
  "RegExp source flags =
     map_option (\<lambda>as. \<lparr>alts = as, ignoreCase = (CHR ''i'' \<in> set flags),
                        global = (CHR ''g'' \<in> set flags), lastIndex = 0\<rparr>)
       (parse_pattern source)"

text \<open>
  Matching is the backtracking of the language: an atom consumes one character; \<^verbatim>\<open>+\<close> is
  greedy, it first tries one more repetition and falls back to the rest of the
  alternative; the alternatives are tried in order and the first that matches wins. The
  result is the number of characters consumed.
\<close>

definition atom_ok :: "bool \<Rightarrow> atom \<Rightarrow> char \<Rightarrow> bool" where
  "atom_ok ic a c =
     (case a of
        Space \<Rightarrow> is_space c
      | Lit d \<Rightarrow> (if ic then canonicalize d = canonicalize c else d = c))"

fun match_items :: "bool \<Rightarrow> item list \<Rightarrow> string \<Rightarrow> nat option" where
  "match_items ic [] s = Some 0"
| "match_items ic (One a # is) [] = None"
| "match_items ic (One a # is) (c # s) =
     (if atom_ok ic a c then map_option Suc (match_items ic is s) else None)"
| "match_items ic (Plus a # is) [] = None"
| "match_items ic (Plus a # is) (c # s) =
     (if atom_ok ic a c then
        (case match_items ic (Plus a # is) s of
           Some n \<Rightarrow> Some (Suc n)
         | None \<Rightarrow> map_option Suc (match_items ic is s))
      else None)"

fun match_alts :: "bool \<Rightarrow> item list list \<Rightarrow> string \<Rightarrow> nat option" where
  "match_alts ic [] s = None"
| "match_alts ic (a # as) s =
     (case match_items ic a s of Some n \<Rightarrow> Some n | None \<Rightarrow> match_alts ic as s)"

text \<open>
  The search of \<^verbatim>\<open>exec\<close>: the first position from \<open>i\<close> on, up to and including the end of
  the text, at which the group matches; \<open>s\<close> is the text from \<open>i\<close>. The result is the index
  of the match and the index after it.
\<close>

fun search :: "regexp \<Rightarrow> nat \<Rightarrow> string \<Rightarrow> (nat \<times> nat) option" where
  "search rx i [] = (case match_alts (ignoreCase rx) (alts rx) [] of
                       Some n \<Rightarrow> Some (i, i + n) | None \<Rightarrow> None)"
| "search rx i (c # s) = (case match_alts (ignoreCase rx) (alts rx) (c # s) of
                            Some n \<Rightarrow> Some (i, i + n) | None \<Rightarrow> search rx (Suc i) s)"

text \<open>
  \<^verbatim>\<open>regex.exec(text)\<close> and \<^verbatim>\<open>regex.test(text)\<close>: a global expression starts at \<^verbatim>\<open>lastIndex\<close>,
  stores the end of the match there, and stores 0 when there is no match (also when
  \<^verbatim>\<open>lastIndex\<close> is beyond the text). The match gives its index and group 1, the matched
  text.
\<close>

record rmatch =
  index :: nat
  group1 :: string

definition exec :: "regexp \<Rightarrow> string \<Rightarrow> rmatch option \<times> regexp" where
  "exec rx text =
     (let start = (if global rx then lastIndex rx else 0)
      in if start > length text then (None, if global rx then rx\<lparr>lastIndex := 0\<rparr> else rx)
         else case search rx start (drop start text) of
                None \<Rightarrow> (None, if global rx then rx\<lparr>lastIndex := 0\<rparr> else rx)
              | Some (i, e) \<Rightarrow>
                  (Some \<lparr>index = i, group1 = slice text i e\<rparr>,
                   if global rx then rx\<lparr>lastIndex := e\<rparr> else rx))"

definition test :: "regexp \<Rightarrow> string \<Rightarrow> bool \<times> regexp" where
  "test rx text = (case exec rx text of (m, rx') \<Rightarrow> (m \<noteq> None, rx'))"

text \<open>
  \<^verbatim>\<open>makePattern\<close>: the entries sorted by the length of the name, longest first (the sort of
  the language is stable), each name escaped and its spaces replaced, joined by \<^verbatim>\<open>|\<close>
  inside one group.
\<close>

definition sort_longest_first :: "entry list \<Rightarrow> entry list" where
  "sort_longest_first nameList = sort_key (\<lambda>e. - int (length (name e))) nameList"

definition pattern_source :: "entry list \<Rightarrow> string" where
  "pattern_source nameList =
     ''('' @ join_bar (map (\<lambda>e. replace_space (escapeRegex (name e))) (sort_longest_first nameList)) @ '')''"

definition makePattern :: "entry list \<Rightarrow> string \<Rightarrow> regexp option" where
  "makePattern nameList flags = RegExp (pattern_source nameList) flags"

section \<open>Anchor lookup\<close>

text \<open>
  What the script builds once from the two lists: the two patterns and the two maps.
  A \<^verbatim>\<open>Map\<close> filled in list order keeps the anchor of the last entry with a given key.
  The case-sensitive list may be undefined (\<open>None\<close>).
\<close>

record env =
  mainPattern :: regexp
  csPattern :: "regexp option"
  anchorMapCI :: "string \<rightharpoonup> string"
  anchorMapCS :: "string \<rightharpoonup> string"

definition build_anchorMapCI :: "entry list \<Rightarrow> (string \<rightharpoonup> string)" where
  "build_anchorMapCI l = fold (\<lambda>e m. m(toLowerCase (name e) \<mapsto> anchor e)) l Map.empty"

definition build_anchorMapCS :: "entry list option \<Rightarrow> (string \<rightharpoonup> string)" where
  "build_anchorMapCS l =
     (case l of None \<Rightarrow> Map.empty
      | Some es \<Rightarrow> fold (\<lambda>e m. m(name e \<mapsto> anchor e)) es Map.empty)"

definition init :: "entry list \<Rightarrow> entry list option \<Rightarrow> env option" where
  "init EPSTEIN_LIST EPSTEIN_LIST_CASE_SENSITIVE =
     (case makePattern EPSTEIN_LIST ''gi'' of
        None \<Rightarrow> None
      | Some mainP \<Rightarrow>
          (case (case EPSTEIN_LIST_CASE_SENSITIVE of
                   None \<Rightarrow> Some None
                 | Some es \<Rightarrow> if length es > 0 then map_option Some (makePattern es ''g'')
                             else Some None) of
             None \<Rightarrow> None
           | Some csP \<Rightarrow>
               Some \<lparr>mainPattern = mainP, csPattern = csP,
                     anchorMapCI = build_anchorMapCI EPSTEIN_LIST,
                     anchorMapCS = build_anchorMapCS EPSTEIN_LIST_CASE_SENSITIVE\<rparr>))"

definition lookupAnchor :: "env \<Rightarrow> string \<Rightarrow> bool \<Rightarrow> string option" where
  "lookupAnchor env matchedText caseSensitive =
     (let normalised = trim (collapse_ws matchedText)
      in if caseSensitive then anchorMapCS env normalised
         else anchorMapCI env (toLowerCase normalised))"

section \<open>The document and the highlight marker\<close>

text \<open>
  A node is a text node or an element with its tag name (as \<^verbatim>\<open>tagName\<close> gives it), its
  classes, its attributes, the address its click listener opens (if it has one) and its
  children. Nodes of other kinds (comments) are never looked at by the script and are
  left out. \<^verbatim>\<open>createHighlight\<close> makes the marker; its attributes are given as they are
  serialised (\<^verbatim>\<open>style.cursor\<close> as the \<^verbatim>\<open>style\<close> attribute); the fixed tooltip text of the
  marker (\<^verbatim>\<open>title\<close>), which has a character outside the range of the development, is left
  out.
\<close>

datatype node =
  TextNode string
| Element string "string list" "(string \<times> string) list" "string option" "node list"

definition createHighlight :: "string \<Rightarrow> string \<Rightarrow> node" where
  "createHighlight matchedName anchor' =
     (let url = WIKI_BASE @ anchor'
      in Element ''SPAN'' [HL_CLASS]
           [(''data-epstein-url'', url), (''role'', ''link''), (''style'', ''cursor: pointer;'')]
           (Some url)
           (if matchedName = [] then [] else [TextNode matchedName]))"

section \<open>Highlighting one text node\<close>

text \<open>
  The state of the loop of \<^verbatim>\<open>applyPattern\<close>: the expression (for its \<^verbatim>\<open>lastIndex\<close>), the
  fragment built so far, the local \<^verbatim>\<open>lastIndex\<close> and \<^verbatim>\<open>didMatch\<close>. The loop runs as long as
  \<^verbatim>\<open>exec\<close> finds a match, so it is a partial function: \<open>None\<close> is a loop that never ends.
  An anchor that is undefined or empty is falsy and the match is passed over.
\<close>

record lstate =
  re :: regexp
  frag :: "node list"
  lastIndex' :: nat
  didMatch :: bool

partial_function (option) match_loop :: "env \<Rightarrow> bool \<Rightarrow> string \<Rightarrow> lstate \<Rightarrow> lstate option" where
  "match_loop env caseSensitive text st =
     (case exec (re st) text of
        (None, rx) \<Rightarrow> Some (st\<lparr>re := rx\<rparr>)
      | (Some m, rx) \<Rightarrow>
          (case lookupAnchor env (group1 m) caseSensitive of
             None \<Rightarrow> match_loop env caseSensitive text (st\<lparr>re := rx\<rparr>)
           | Some a \<Rightarrow>
               if a = [] then match_loop env caseSensitive text (st\<lparr>re := rx\<rparr>)
               else match_loop env caseSensitive text
                      \<lparr>re = rx,
                       frag = frag st
                         @ (if index m > lastIndex' st
                            then [TextNode (slice text (lastIndex' st) (index m))] else [])
                         @ [createHighlight (group1 m) a],
                       lastIndex' = lastIndex rx,
                       didMatch = True\<rparr>))"

declare match_loop.simps [code]

text \<open>
  \<^verbatim>\<open>applyPattern\<close> gives whether the text node was replaced, the nodes that stand in its
  place afterwards (the node itself when it was not replaced) and the expression as it
  is left.
\<close>

definition applyPattern :: "env \<Rightarrow> string \<Rightarrow> regexp \<Rightarrow> bool \<Rightarrow> (bool \<times> node list \<times> regexp) option" where
  "applyPattern env text regex caseSensitive =
     (case test regex text of
        (False, rx) \<Rightarrow> Some (False, [TextNode text], rx)
      | (True, rx) \<Rightarrow>
          (case match_loop env caseSensitive text
                  \<lparr>re = rx\<lparr>lastIndex := 0\<rparr>, frag = [], lastIndex' = 0, didMatch = False\<rparr> of
             None \<Rightarrow> None
           | Some st \<Rightarrow>
               if \<not> didMatch st then Some (False, [TextNode text], re st)
               else Some (True,
                          frag st @ (if lastIndex' st < length text
                                     then [TextNode (drop (lastIndex' st) text)] else []),
                          re st)))"

text \<open>
  \<^verbatim>\<open>highlightTextNode\<close>: the main pattern first, the case-sensitive one only when the main
  one did not replace the node and there is one. Both expressions are left with
  \<^verbatim>\<open>lastIndex\<close> 0 by \<^verbatim>\<open>applyPattern\<close> (lemma \<open>applyPattern_spec\<close> below), so the next
  text node meets them as they are in \<open>env\<close>.
\<close>

definition highlightTextNode :: "env \<Rightarrow> string \<Rightarrow> node list option" where
  "highlightTextNode env text =
     (case applyPattern env text (mainPattern env) False of
        None \<Rightarrow> None
      | Some (replaced, nodes, rx) \<Rightarrow>
          (case csPattern env of
             None \<Rightarrow> Some nodes
           | Some csP \<Rightarrow>
               if \<not> replaced then
                 (case applyPattern env text csP True of
                    None \<Rightarrow> None
                  | Some (replaced', nodes', rx') \<Rightarrow> Some nodes')
               else Some nodes))"

section \<open>Walking a subtree\<close>

text \<open>
  The filter of the tree walker sees a text node with its ancestor elements, the parent
  first, each with its tag name and classes: no parent element, a parent with a skipped
  tag, a marker among the parent and its ancestors (\<^verbatim>\<open>closest\<close>), or blank text reject the
  node.
\<close>

datatype filter_result = FILTER_ACCEPT | FILTER_REJECT

type_synonym ancestors = "(string \<times> string list) list"

fun acceptNode :: "ancestors \<Rightarrow> string \<Rightarrow> filter_result" where
  "acceptNode [] v = FILTER_REJECT"
| "acceptNode ((tag, cls) # anc) v =
     (if tag \<in> set SKIP_TAGS then FILTER_REJECT
      else if list_ex (\<lambda>(t, c). HL_CLASS \<in> set c) ((tag, cls) # anc) then FILTER_REJECT
      else if trim v = [] then FILTER_REJECT
      else FILTER_ACCEPT)"






definition scan_text :: "entry list \<Rightarrow> entry list option \<Rightarrow> string \<Rightarrow> node list option" where
  "scan_text EPSTEIN_LIST EPSTEIN_LIST_CASE_SENSITIVE text =
     (case init EPSTEIN_LIST EPSTEIN_LIST_CASE_SENSITIVE of
        None \<Rightarrow> None
      | Some env \<Rightarrow> highlightTextNode env text)"

section \<open>The mutation observer\<close>

text \<open>
  The observer is registered for child-list changes in the whole subtree of the body, so
  the records it receives are child-list records. An added node comes with its ancestors
  in the document. The callback goes through the added nodes of every record and calls
  \<^verbatim>\<open>processSubtree\<close> on the elements that have no skipped tag and are no marker; its model
  gives the calls in order, each with the root as it is afterwards. An added node is
  given as it stands in the document when the callback comes to it.
\<close>

datatype mutation_type = ChildList | Attributes | CharacterData







section \<open>The older variant with a single list\<close>

text \<open>
  The older script has one list, one pattern (flags \<^verbatim>\<open>gi\<close>) and one map. It replaces
  backslash-space, not space, in the escaped names; it has no test of the anchor, and
  an undefined anchor is concatenated to the address as the text \<^verbatim>\<open>undefined\<close>. Its marker
  is built as in \<^verbatim>\<open>createHighlight\<close>. The state of its loop is the expression, the fragment
  and the local \<^verbatim>\<open>lastIndex\<close>.
\<close>

definition old_pattern_source :: "entry list \<Rightarrow> string" where
  "old_pattern_source nameList =
     ''('' @ join_bar (map (\<lambda>e. replace_backslash_space (escapeRegex (name e)))
                         (sort_longest_first nameList)) @ '')''"

definition old_pattern :: "entry list \<Rightarrow> regexp option" where
  "old_pattern nameList = RegExp (old_pattern_source nameList) ''gi''"

definition old_lookupAnchor :: "(string \<rightharpoonup> string) \<Rightarrow> string \<Rightarrow> string option" where
  "old_lookupAnchor anchorMap matchedText = anchorMap (toLowerCase (trim (collapse_ws matchedText)))"

partial_function (option) old_match_loop ::
    "(string \<rightharpoonup> string) \<Rightarrow> string \<Rightarrow> regexp \<times> node list \<times> nat \<Rightarrow> (regexp \<times> node list \<times> nat) option" where
  "old_match_loop anchorMap text st =
     (case st of (rx0, frag0, last0) \<Rightarrow>
        (case exec rx0 text of
           (None, rx) \<Rightarrow> Some (rx, frag0, last0)
         | (Some m, rx) \<Rightarrow>
             old_match_loop anchorMap text
               (rx,
                frag0
                  @ (if index m > last0 then [TextNode (slice text last0 (index m))] else [])
                  @ [createHighlight (group1 m)
                       (case old_lookupAnchor anchorMap (group1 m) of
                          None \<Rightarrow> ''undefined'' | Some a \<Rightarrow> a)],
                lastIndex rx)))"

declare old_match_loop.simps [code]

definition old_highlightTextNode :: "regexp \<Rightarrow> (string \<rightharpoonup> string) \<Rightarrow> string \<Rightarrow> node list option" where
  "old_highlightTextNode pattern anchorMap text =
     (case test pattern text of
        (False, rx) \<Rightarrow> Some [TextNode text]
      | (True, rx) \<Rightarrow>
          (case old_match_loop anchorMap text (rx\<lparr>lastIndex := 0\<rparr>, [], 0) of
             None \<Rightarrow> None
           | Some (rx', frag', last') \<Rightarrow>
               Some (frag' @ (if last' < length text then [TextNode (drop last' text)] else []))))"

definition old_scan_text :: "entry list \<Rightarrow> string \<Rightarrow> node list option" where
  "old_scan_text EPSTEIN_LIST text =
     (case old_pattern EPSTEIN_LIST of
        None \<Rightarrow> None
      | Some pattern \<Rightarrow> old_highlightTextNode pattern (build_anchorMapCI EPSTEIN_LIST) text)"

section \<open>Definitions for the statements\<close>

text \<open>
  The definitions of this section are not in the script; the theorems are stated with
  them. \<open>compile\<close> is the alternative that a name stands for and \<open>compiled\<close> the
  expression that \<^verbatim>\<open>makePattern\<close> returns (lemma \<open>makePattern_compiled\<close>); \<open>match_at\<close> is
  the match of the group at a position of the text; \<open>all_matches\<close> is the list of the
  matches that repeated calls of \<^verbatim>\<open>exec\<close> find, each with its index and its end, until
  \<^verbatim>\<open>exec\<close> finds none (\<open>None\<close> when that never happens).

  \<open>spec_apply\<close> is the Node Highlighter as the specification words it: of the matches
  found, those whose anchor lookup succeeds are kept (\<open>resolved\<close>); going through them
  in order, the text before each is emitted as plain text and the match as a marker
  (\<open>emit\<close>), the text after the last one follows as plain text (\<open>decompose\<close>); when no
  match is kept the segment stays as it is.
\<close>

definition compile :: "string \<Rightarrow> item list" where
  "compile n = map (\<lambda>c. if c = CHR '' '' then Plus Space else One (Lit c)) n"

definition compiled_alts :: "entry list \<Rightarrow> item list list" where
  "compiled_alts nameList =
     (if nameList = [] then [[]] else map (\<lambda>e. compile (name e)) (sort_longest_first nameList))"

definition match_at :: "regexp \<Rightarrow> string \<Rightarrow> nat \<Rightarrow> nat option" where
  "match_at rx text k = match_alts (ignoreCase rx) (alts rx) (drop k text)"

partial_function (option) all_matches :: "regexp \<Rightarrow> string \<Rightarrow> (nat \<times> nat) list option" where
  "all_matches rx text =
     (case exec rx text of
        (None, rx') \<Rightarrow> Some []
      | (Some m, rx') \<Rightarrow>
          Option.bind (all_matches rx' text) (\<lambda>ms. Some ((index m, lastIndex rx') # ms)))"

definition resolve :: "env \<Rightarrow> bool \<Rightarrow> string \<Rightarrow> nat \<times> nat \<Rightarrow> (nat \<times> nat \<times> string) option" where
  "resolve env caseSensitive text m =
     (case m of (i, e) \<Rightarrow>
        (case lookupAnchor env (slice text i e) caseSensitive of
           None \<Rightarrow> None
         | Some a \<Rightarrow> if a = [] then None else Some (i, e, a)))"

definition resolved :: "env \<Rightarrow> bool \<Rightarrow> string \<Rightarrow> (nat \<times> nat) list \<Rightarrow> (nat \<times> nat \<times> string) list" where
  "resolved env caseSensitive text ms = List.map_filter (resolve env caseSensitive text) ms"

fun emit :: "string \<Rightarrow> nat \<times> nat \<times> string \<Rightarrow> node list \<times> nat \<Rightarrow> node list \<times> nat" where
  "emit text (i, e, a) (fr, l) =
     (fr @ (if i > l then [TextNode (slice text l i)] else [])
         @ [createHighlight (slice text i e) a], e)"

definition decompose :: "string \<Rightarrow> (nat \<times> nat \<times> string) list \<Rightarrow> node list" where
  "decompose text rs =
     (case fold (emit text) rs ([], 0) of
        (fr, l) \<Rightarrow> fr @ (if l < length text then [TextNode (drop l text)] else []))"

definition spec_apply :: "env \<Rightarrow> string \<Rightarrow> regexp \<Rightarrow> bool \<Rightarrow> (bool \<times> node list) option" where
  "spec_apply env text regex caseSensitive =
     (case all_matches (regex\<lparr>lastIndex := 0\<rparr>) text of
        None \<Rightarrow> None
      | Some ms \<Rightarrow>
          (let rs = resolved env caseSensitive text ms
           in if rs = [] then Some (False, [TextNode text])
              else Some (True, decompose text rs)))"

fun textContent :: "node \<Rightarrow> string" where
  "textContent (TextNode v) = v"
| "textContent (Element tag cls attrs click kids) = concat (map textContent kids)"

fun matches_wf :: "nat \<Rightarrow> nat \<Rightarrow> (nat \<times> nat) list \<Rightarrow> bool" where
  "matches_wf k n [] = True"
| "matches_wf k n ((i, e) # ms) = (k \<le> i \<and> i \<le> e \<and> e \<le> n \<and> matches_wf e n ms)"

fun resolved_wf :: "nat \<Rightarrow> nat \<Rightarrow> (nat \<times> nat \<times> string) list \<Rightarrow> bool" where
  "resolved_wf k n [] = True"
| "resolved_wf k n ((i, e, a) # rs) = (k \<le> i \<and> i \<le> e \<and> e \<le> n \<and> resolved_wf e n rs)"

definition compiled :: "entry list \<Rightarrow> string \<Rightarrow> regexp" where
  "compiled nameList flags =
     \<lparr>alts = compiled_alts nameList, ignoreCase = (CHR ''i'' \<in> set flags),
      global = (CHR ''g'' \<in> set flags), lastIndex = 0\<rparr>"

text \<open>
  \<open>occurs ic n w\<close>: the text \<open>w\<close> is the name \<open>n\<close> in a form that the pattern made from
  \<open>n\<close> allows: a space of the name stands for one or more white-space characters, every
  other character for itself and, when \<open>ic\<close> holds, for the same letter in the other case.

  An entry is \<open>well_formed\<close> when its name is not empty and is left as it is by the two
  steps with which \<^verbatim>\<open>lookupAnchor\<close> normalises a match (white space collapsed, ends
  trimmed), and its anchor is not empty.

  \<open>reached rx text p\<close>: none of the matches that the scan of \<open>text\<close> finds begins before
  the position \<open>p\<close> and ends behind it. (A match that contains \<open>p\<close> in its inside moves the
  scan past \<open>p\<close>; lemma \<open>reached_if_no_overlap\<close> gives a condition on the text alone.)

  \<open>is_marker\<close> recognises the marker class; \<open>textContent\<close> is the text of a node.
\<close>

fun occurs :: "bool \<Rightarrow> string \<Rightarrow> string \<Rightarrow> bool" where
  "occurs ic [] w = (w = [])"
| "occurs ic (c # n) [] = False"
| "occurs ic (c # n) (d # w) =
     (if c = CHR '' '' then is_space d \<and> (occurs ic n w \<or> occurs ic (c # n) w)
      else (if ic then canonicalize c = canonicalize d else c = d) \<and> occurs ic n w)"

definition well_formed :: "entry \<Rightarrow> bool" where
  "well_formed x =
     (name x \<noteq> [] \<and> collapse_ws (name x) = name x \<and> trim (name x) = name x \<and> anchor x \<noteq> [])"

definition reached :: "regexp \<Rightarrow> string \<Rightarrow> nat \<Rightarrow> bool" where
  "reached rx text p =
     (case all_matches rx text of
        None \<Rightarrow> True
      | Some ms \<Rightarrow> list_all (\<lambda>(i, j). \<not> (i < p \<and> p < j)) ms)"

fun is_marker :: "node \<Rightarrow> bool" where
  "is_marker (TextNode v) = False"
| "is_marker (Element tag cls attrs click kids) = (HL_CLASS \<in> set cls)"

text \<open>
  A node is \<open>quiet\<close> for a pattern when it is no text node, or a text node on which the
  pattern resolves no match.
\<close>

definition quiet :: "env \<Rightarrow> regexp \<Rightarrow> bool \<Rightarrow> node \<Rightarrow> bool" where
  "quiet env rx cs n = (\<forall>v. n = TextNode v \<longrightarrow> spec_apply env v rx cs = Some (False, [TextNode v]))"

text \<open>
  \<open>walk\<close> gives the nodes that stand in the place of a node after the scan, going
  through the tree once and replacing each accepted text node as it is met. It is what
  \<^verbatim>\<open>processSubtree\<close> makes of the children of its root (lemma \<open>processSubtree_walk\<close>).
\<close>

fun walk :: "env \<Rightarrow> ancestors \<Rightarrow> node \<Rightarrow> node list option"
  and walk_children :: "env \<Rightarrow> ancestors \<Rightarrow> node list \<Rightarrow> node list option" where
  "walk env anc (TextNode v) =
     (if acceptNode anc v = FILTER_ACCEPT then highlightTextNode env v else Some [TextNode v])"
| "walk env anc (Element tag cls attrs click kids) =
     map_option (\<lambda>ks. [Element tag cls attrs click ks]) (walk_children env ((tag, cls) # anc) kids)"
| "walk_children env anc [] = Some []"
| "walk_children env anc (k # ks) =
     (case walk env anc k of
        None \<Rightarrow> None
      | Some a \<Rightarrow> (case walk_children env anc ks of None \<Rightarrow> None | Some b \<Rightarrow> Some (a @ b)))"




declare all_matches.simps [code]

section \<open>Lemmas\<close>

subsection \<open>The two phases of processSubtree\<close>




subsection \<open>The pattern that makePattern builds\<close>

text \<open>
  Parsing the source that \<^verbatim>\<open>makePattern\<close> puts together gives back the names, one
  alternative each, in sorted order: an escaped character is the character, a space is
  \<^verbatim>\<open>\s+\<close>. An empty list gives the source \<^verbatim>\<open>()\<close>, one empty alternative.
\<close>

lemma syntax_chars_set:
  "c \<in> set syntax_chars \<longleftrightarrow> c \<in> {CHR ''.'', CHR ''*'', CHR ''+'', CHR ''?'', CHR ''^'', CHR ''$'', CHR ''{'', CHR ''}'',
      CHR ''('', CHR '')'', CHR ''|'', CHR ''['', CHR '']'', CHR 0x5C}"
  by (auto simp: syntax_chars_def)

lemma parse_body_name:
  "parse_body (replace_space (escapeRegex n) @ rest) False cur done
   = parse_body rest False (rev (compile n) @ cur) done"
proof (induction n arbitrary: cur)
  case Nil
  then show ?case by (simp add: replace_space_def escapeRegex_def compile_def)
next
  case (Cons c n)
  have step: "replace_space (escapeRegex (c # n)) = replace_space (escapeRegex [c]) @ replace_space (escapeRegex n)"
    by (simp add: replace_space_def escapeRegex_def)
  have one: "\<And>r cur. parse_body (replace_space (escapeRegex [c]) @ r) False cur done
        = parse_body r False ((if c = CHR '' '' then Plus Space else One (Lit c)) # cur) done"
    by (auto simp: replace_space_def escapeRegex_def syntax_chars_set)
  show ?case
    unfolding step append_assoc one Cons.IH by (simp add: compile_def)
qed

lemma parse_body_join:
  "parse_body (join_bar (map (\<lambda>e. replace_space (escapeRegex (name e))) es) @ '')'') False cur done
   = Some (rev done @ (case es of [] \<Rightarrow> [rev cur] | e # es' \<Rightarrow> (rev cur @ compile (name e)) # map (\<lambda>e. compile (name e)) es'))"
proof (induction es arbitrary: cur "done" rule: induct_list012)
  case 1
  then show ?case by (simp add: syntax_chars_set)
next
  case (2 x)
  then show ?case by (simp add: parse_body_name)
next
  case (3 x y zs)
  show ?case
    using 3(2)[of "[]" "(rev cur @ compile (name x)) # done"]
    by (simp add: parse_body_name)
qed

lemma sort_longest_first_Nil [simp]: "sort_longest_first l = [] \<longleftrightarrow> l = []"
  by (metis sort_longest_first_def length_sort length_0_conv)

lemma sort_longest_first_Nil2 [simp]: "sort_longest_first [] = []"
  by (simp add: sort_longest_first_def)

lemma makePattern_eq:
  "makePattern nameList flags =
     Some \<lparr>alts = compiled_alts nameList, ignoreCase = (CHR ''i'' \<in> set flags),
           global = (CHR ''g'' \<in> set flags), lastIndex = 0\<rparr>"
proof (cases "sort_longest_first nameList")
  case Nil
  then have "nameList = []" by simp
  then show ?thesis
    using parse_body_join[of "[]" "[]" "[]"] Nil
    by (simp add: makePattern_def RegExp_def pattern_source_def compiled_alts_def)
next
  case (Cons e es)
  then have "nameList \<noteq> []" by auto
  then show ?thesis
    using parse_body_join[of "e # es" "[]" "[]"] Cons
    by (simp add: makePattern_def RegExp_def pattern_source_def compiled_alts_def)
qed

subsection \<open>Matching\<close>

text \<open>
  A match consumes at least one character for every term and stays within the text. A
  match, or the absence of one, is not changed by cutting the text off behind the
  characters the match consumed.
\<close>

lemma match_items_bounds:
  "match_items ic is s = Some n \<Longrightarrow> length is \<le> n \<and> n \<le> length s"
  by (induction ic "is" s arbitrary: n rule: match_items.induct)
     (auto split: if_splits option.splits)



lemma match_alts_bounds:
  "match_alts ic as s = Some n \<Longrightarrow> n \<le> length s"
  by (induction as) (auto split: option.splits dest: match_items_bounds)



lemma match_items_pos:
  "match_items ic is s = Some n \<Longrightarrow> is \<noteq> [] \<Longrightarrow> 0 < n"
  by (cases "is") (auto dest!: match_items_bounds)

lemma match_alts_pos:
  "match_alts ic as s = Some n \<Longrightarrow> [] \<notin> set as \<Longrightarrow> 0 < n"
  by (induction as) (auto split: option.splits dest: match_items_pos)

lemma match_alts_empty_alt:
  "[] \<in> set as \<Longrightarrow> match_alts ic as s \<noteq> None"
  by (induction as) (auto split: option.splits)


subsection \<open>Search and exec\<close>

lemma search_SomeD:
  "search rx i s = Some (j, e) \<Longrightarrow>
     \<exists>k n. j = i + k \<and> e = j + n \<and> k \<le> length s
       \<and> match_alts (ignoreCase rx) (alts rx) (drop k s) = Some n
       \<and> (\<forall>k'<k. match_alts (ignoreCase rx) (alts rx) (drop k' s) = None)"
proof (induction s arbitrary: i)
  case Nil
  then show ?case by (auto split: option.splits)
next
  case (Cons c s)
  show ?case
  proof (cases "match_alts (ignoreCase rx) (alts rx) (c # s)")
    case None
    with Cons.prems have "search rx (Suc i) s = Some (j, e)" by simp
    from Cons.IH[OF this] obtain k n where
      kn: "j = Suc i + k" "e = j + n" "k \<le> length s"
          "match_alts (ignoreCase rx) (alts rx) (drop k s) = Some n"
          "\<forall>k'<k. match_alts (ignoreCase rx) (alts rx) (drop k' s) = None"
      by blast
    have "\<forall>k'<Suc k. match_alts (ignoreCase rx) (alts rx) (drop k' (c # s)) = None"
      using kn(5) None by (auto simp: less_Suc_eq_0_disj)
    with kn show ?thesis
      by (intro exI[of _ "Suc k"] exI[of _ n]) simp
  next
    case (Some n)
    with Cons.prems show ?thesis
      by (intro exI[of _ 0] exI[of _ n]) simp
  qed
qed

lemma search_NoneD:
  "search rx i s = None \<Longrightarrow> k \<le> length s \<Longrightarrow>
     match_alts (ignoreCase rx) (alts rx) (drop k s) = None"
proof (induction s arbitrary: i k)
  case Nil
  then show ?case by (auto split: option.splits)
next
  case (Cons c s)
  then show ?case by (cases k) (auto split: option.splits)
qed



lemma exec_SomeD:
  assumes "exec rx text = (Some m, rx')" "global rx"
  shows "lastIndex rx \<le> index m \<and> index m \<le> lastIndex rx' \<and> lastIndex rx' \<le> length text
       \<and> group1 m = slice text (index m) (lastIndex rx')
       \<and> rx' = rx\<lparr>lastIndex := lastIndex rx'\<rparr>
       \<and> match_at rx text (index m) = Some (lastIndex rx' - index m)
       \<and> (\<forall>k. lastIndex rx \<le> k \<and> k < index m \<longrightarrow> match_at rx text k = None)"
proof -
  from assms have le: "lastIndex rx \<le> length text"
    by (auto simp: exec_def Let_def split: if_splits)
  from assms le obtain j e where s: "search rx (lastIndex rx) (drop (lastIndex rx) text) = Some (j, e)"
    and m: "m = \<lparr>index = j, group1 = slice text j e\<rparr>" and rx': "rx' = rx\<lparr>lastIndex := e\<rparr>"
    by (auto simp: exec_def Let_def split: if_splits option.splits)
  from search_SomeD[OF s] obtain k n where
    kn: "j = lastIndex rx + k" "e = j + n" "k \<le> length (drop (lastIndex rx) text)"
        "match_alts (ignoreCase rx) (alts rx) (drop k (drop (lastIndex rx) text)) = Some n"
        "\<forall>k'<k. match_alts (ignoreCase rx) (alts rx) (drop k' (drop (lastIndex rx) text)) = None"
    by blast
  have n: "n \<le> length text - j"
    using match_alts_bounds[OF kn(4)] kn(1) by (simp add: add.commute)
  have none: "\<forall>q. lastIndex rx \<le> q \<and> q < j \<longrightarrow> match_at rx text q = None"
  proof (intro allI impI)
    fix q assume q: "lastIndex rx \<le> q \<and> q < j"
    then have "q - lastIndex rx < k" using kn(1) by arith
    from kn(5)[rule_format, OF this] q show "match_at rx text q = None"
      by (simp add: match_at_def add.commute)
  qed
  show ?thesis
    using m rx' kn(1-4) n le none
    by (simp add: match_at_def add.commute)
qed

lemma exec_NoneD:
  assumes "exec rx text = (None, rx')" "global rx"
  shows "rx' = rx\<lparr>lastIndex := 0\<rparr>
       \<and> (\<forall>k. lastIndex rx \<le> k \<and> k \<le> length text \<longrightarrow> match_at rx text k = None)"
proof (cases "lastIndex rx \<le> length text")
  case True
  with assms have s: "search rx (lastIndex rx) (drop (lastIndex rx) text) = None"
    and rx': "rx' = rx\<lparr>lastIndex := 0\<rparr>"
    by (auto simp: exec_def Let_def split: if_splits option.splits)
  have "\<forall>k. lastIndex rx \<le> k \<and> k \<le> length text \<longrightarrow> match_at rx text k = None"
  proof (intro allI impI)
    fix k assume k: "lastIndex rx \<le> k \<and> k \<le> length text"
    then have "k - lastIndex rx \<le> length (drop (lastIndex rx) text)" by (simp add: diff_le_mono)
    from search_NoneD[OF s this] k show "match_at rx text k = None"
      by (simp add: match_at_def add.commute)
  qed
  with rx' show ?thesis by simp
next
  case False
  with assms show ?thesis
    by (auto simp: exec_def Let_def split: if_splits option.splits)
qed



subsection \<open>The matches of a scan and the loop\<close>

lemma all_matches_Nil_iff:
  "all_matches rx text = Some [] \<longleftrightarrow> fst (exec rx text) = None"
  by (subst all_matches.simps) (auto split: prod.splits option.splits simp: bind_eq_Some_conv)

lemma all_matches_Cons_iff:
  "all_matches rx text = Some (x # xs) \<longleftrightarrow>
     (\<exists>m rx'. exec rx text = (Some m, rx') \<and> x = (index m, lastIndex rx') \<and> all_matches rx' text = Some xs)"
  by (subst all_matches.simps) (auto split: prod.splits option.splits simp: bind_eq_Some_conv)

lemma all_matches_exec_None:
  "exec rx text = (None, rx') \<Longrightarrow> all_matches rx text = Some []"
  by (subst all_matches.simps) simp

lemma all_matches_exec_Some:
  "exec rx text = (Some m, rx') \<Longrightarrow>
   all_matches rx text = map_option ((#) (index m, lastIndex rx')) (all_matches rx' text)"
  by (subst all_matches.simps) (cases "all_matches rx' text"; simp)

lemma exec_global: "exec rx text = (r, rx') \<Longrightarrow> global rx' = global rx"
  by (auto simp: exec_def Let_def split: if_splits option.splits)

lemma exec_alts: "exec rx text = (r, rx') \<Longrightarrow> alts rx' = alts rx \<and> ignoreCase rx' = ignoreCase rx"
  by (auto simp: exec_def Let_def split: if_splits option.splits)

text \<open>The loop computes the fold over the resolved matches.\<close>

lemma loop_of_matches:
  "global (re st) \<Longrightarrow> all_matches (re st) text = Some ms \<Longrightarrow>
   match_loop env cs text st =
     Some \<lparr>re = (re st)\<lparr>lastIndex := 0\<rparr>,
           frag = fst (fold (emit text) (resolved env cs text ms) (frag st, lastIndex' st)),
           lastIndex' = snd (fold (emit text) (resolved env cs text ms) (frag st, lastIndex' st)),
           didMatch = (didMatch st \<or> resolved env cs text ms \<noteq> [])\<rparr>"
proof (induction ms arbitrary: st)
  case Nil
  then obtain rx' where e: "exec (re st) text = (None, rx')"
    by (metis all_matches_Nil_iff fst_conv surj_pair)
  with Nil have "rx' = (re st)\<lparr>lastIndex := 0\<rparr>" by (auto dest: exec_NoneD)
  with e show ?case
    by (subst match_loop.simps) (simp add: resolved_def List.map_filter_simps)
next
  case (Cons x ms)
  then obtain m rx' where e: "exec (re st) text = (Some m, rx')"
    and x: "x = (index m, lastIndex rx')" and rest: "all_matches rx' text = Some ms"
    by (auto simp: all_matches_Cons_iff)
  from exec_SomeD[OF e Cons.prems(1)] have g1: "group1 m = slice text (index m) (lastIndex rx')"
    and rx': "rx' = (re st)\<lparr>lastIndex := lastIndex rx'\<rparr>" by auto
  have gl: "global rx'" using exec_global[OF e] Cons.prems(1) by simp
  have z: "rx'\<lparr>lastIndex := 0\<rparr> = (re st)\<lparr>lastIndex := 0\<rparr>"
    by (subst rx') simp
  show ?case
  proof (cases "resolve env cs text x")
    case None
    then have r: "resolved env cs text (x # ms) = resolved env cs text ms"
      by (simp add: resolved_def List.map_filter_simps)
    have step: "match_loop env cs text st = match_loop env cs text (st\<lparr>re := rx'\<rparr>)"
      using e None x g1
      by (subst match_loop.simps) (auto simp: resolve_def split: option.splits if_splits)
    show ?thesis
      unfolding step r using Cons.IH[of "st\<lparr>re := rx'\<rparr>"] gl rest z by simp
  next
    case (Some t)
    then obtain a where t: "t = (index m, lastIndex rx', a)"
      and la: "lookupAnchor env (group1 m) cs = Some a" "a \<noteq> []"
      using x g1 by (auto simp: resolve_def split: option.splits if_splits)
    have r: "resolved env cs text (x # ms) = t # resolved env cs text ms"
      using Some by (simp add: resolved_def List.map_filter_simps)
    let ?st1 = "\<lparr>re = rx',
                 frag = frag st
                   @ (if index m > lastIndex' st then [TextNode (slice text (lastIndex' st) (index m))] else [])
                   @ [createHighlight (group1 m) a],
                 lastIndex' = lastIndex rx', didMatch = True\<rparr>"
    have step: "match_loop env cs text st = match_loop env cs text ?st1"
      using e la by (subst match_loop.simps) simp
    show ?thesis
      unfolding step r using Cons.IH[of ?st1] gl rest z t g1 by simp
  qed
qed

lemma matches_of_loop:
  "match_loop env cs t st = Some st' \<Longrightarrow> \<exists>ms. all_matches (re st) t = Some ms"
proof (induction env cs t st st' rule: match_loop.raw_induct[rotated 1, consumes 1])
  case (1 loop' env cs t st st')
  show ?case
  proof (cases "exec (re st) t")
    case (Pair r rx')
    show ?thesis
    proof (cases r)
      case None
      with Pair show ?thesis by (auto dest: all_matches_exec_None)
    next
      case (Some m)
      with Pair "1"(2) obtain st1 where "loop' env cs t st1 = Some st'" "re st1 = rx'"
        by (auto split: option.splits if_splits)
      from "1"(1)[OF this(1)] this(2) obtain ms where "all_matches rx' t = Some ms" by auto
      with Pair Some show ?thesis by (auto simp: all_matches_exec_Some)
    qed
  qed
qed

subsection \<open>Termination and divergence\<close>

text \<open>
  When no alternative is empty every match is at least one character long and the
  position grows; when one is empty, there is a match at every position and \<^verbatim>\<open>exec\<close>
  never comes to the end.
\<close>

lemma all_matches_terminates:
  "global rx \<Longrightarrow> [] \<notin> set (alts rx) \<Longrightarrow> \<exists>ms. all_matches rx text = Some ms"
proof (induction "Suc (length text) - lastIndex rx" arbitrary: rx rule: less_induct)
  case less
  show ?case
  proof (cases "exec rx text")
    case (Pair r rx')
    show ?thesis
    proof (cases r)
      case None
      with Pair show ?thesis by (auto dest: all_matches_exec_None)
    next
      case (Some m)
      from exec_SomeD[OF Pair[unfolded Some] less.prems(1)]
      have b: "lastIndex rx \<le> index m" "index m \<le> lastIndex rx'" "lastIndex rx' \<le> length text"
        and ma: "match_at rx text (index m) = Some (lastIndex rx' - index m)" by auto
      from ma less.prems(2) have "0 < lastIndex rx' - index m"
        by (auto simp: match_at_def dest: match_alts_pos)
      with b have "Suc (length text) - lastIndex rx' < Suc (length text) - lastIndex rx" by arith
      moreover have "global rx'" "[] \<notin> set (alts rx')"
        using exec_global[OF Pair] exec_alts[OF Pair] less.prems by auto
      ultimately obtain ms where "all_matches rx' text = Some ms"
        using less.hyps by blast
      with Pair Some show ?thesis by (auto simp: all_matches_exec_Some)
    qed
  qed
qed

lemma match_at_empty_alt: "[] \<in> set (alts rx) \<Longrightarrow> match_at rx text k \<noteq> None"
  by (simp add: match_at_def match_alts_empty_alt)

lemma exec_empty_alt:
  assumes "global rx" "[] \<in> set (alts rx)" "lastIndex rx \<le> length text"
  shows "\<exists>m rx'. exec rx text = (Some m, rx')"
proof (cases "exec rx text")
  case (Pair r rx')
  show ?thesis
  proof (cases r)
    case None
    from exec_NoneD[OF Pair[unfolded None] assms(1)] assms(3)
    have "match_at rx text (lastIndex rx) = None" by auto
    with match_at_empty_alt[OF assms(2)] show ?thesis by blast
  next
    case (Some m)
    with Pair show ?thesis by auto
  qed
qed

lemma all_matches_diverges_aux:
  "all_matches rx t = Some ms \<Longrightarrow> \<not> (global rx \<and> [] \<in> set (alts rx) \<and> lastIndex rx \<le> length t)"
proof (induction rx t ms rule: all_matches.raw_induct[rotated 1, consumes 1])
  case (1 all_matches' rx t ms)
  show ?case
  proof
    assume a: "global rx \<and> [] \<in> set (alts rx) \<and> lastIndex rx \<le> length t"
    then obtain m rx' where e: "exec rx t = (Some m, rx')"
      using exec_empty_alt by blast
    with "1"(2) obtain ms' where "all_matches' rx' t = Some ms'"
      by (auto simp: bind_eq_Some_conv)
    from "1"(1)[OF this] exec_global[OF e] exec_alts[OF e] a exec_SomeD[OF e]
    show False by auto
  qed
qed

lemma all_matches_diverges:
  "global rx \<Longrightarrow> [] \<in> set (alts rx) \<Longrightarrow> lastIndex rx \<le> length text \<Longrightarrow> all_matches rx text = None"
  using all_matches_diverges_aux[of rx "text"] by (cases "all_matches rx text") auto

subsection \<open>applyPattern and its specification\<close>

lemma rx_lastIndex_same [simp]: "lastIndex rx = k \<Longrightarrow> rx\<lparr>lastIndex := k\<rparr> = rx"
  by simp

lemma applyPattern_spec:
  assumes "global rx" "lastIndex rx = 0"
  shows "applyPattern env text rx cs =
           map_option (\<lambda>(b, ns). (b, ns, rx)) (spec_apply env text rx cs)"
proof (cases "exec rx text")
  case (Pair r rx1)
  show ?thesis
  proof (cases r)
    case None
    from exec_NoneD[OF Pair[unfolded None] assms(1)] assms(2) have "rx1 = rx" by simp
    moreover have "all_matches rx text = Some []"
      using Pair None by (auto dest: all_matches_exec_None)
    ultimately show ?thesis
      using Pair None assms(2)
      by (simp add: applyPattern_def test_def spec_apply_def resolved_def List.map_filter_simps)
  next
    case (Some m)
    have rx1: "rx1\<lparr>lastIndex := 0\<rparr> = rx"
      using exec_SomeD[OF Pair[unfolded Some] assms(1)] assms(2)
      by (metis (no_types) regexp.surjective regexp.update_convs(4))
    let ?st0 = "\<lparr>re = rx, frag = [], lastIndex' = 0, didMatch = False\<rparr>"
    have t: "test rx text = (True, rx1)" using Pair Some by (simp add: test_def)
    show ?thesis
    proof (cases "all_matches rx text")
      case None
      then have "match_loop env cs text ?st0 = None"
        using matches_of_loop[of env cs "text" ?st0] by (cases "match_loop env cs text ?st0") auto
      with None t rx1 assms(2) show ?thesis
        by (simp add: applyPattern_def spec_apply_def)
    next
      case (Some ms)
      from loop_of_matches[of ?st0 "text" ms env cs] Some assms(1)
      have "match_loop env cs text ?st0 =
              Some \<lparr>re = rx,
                    frag = fst (fold (emit text) (resolved env cs text ms) ([], 0)),
                    lastIndex' = snd (fold (emit text) (resolved env cs text ms) ([], 0)),
                    didMatch = (resolved env cs text ms \<noteq> [])\<rparr>"
        using assms(2) by simp
      with Some t rx1 assms(2) show ?thesis
        by (simp add: applyPattern_def spec_apply_def decompose_def Let_def case_prod_unfold)
    qed
  qed
qed

subsection \<open>The text of the produced nodes\<close>

lemma all_matches_wf:
  "global rx \<Longrightarrow> all_matches rx text = Some ms \<Longrightarrow> matches_wf (lastIndex rx) (length text) ms"
proof (induction ms arbitrary: rx)
  case Nil
  then show ?case by simp
next
  case (Cons x ms)
  then obtain m rx' where e: "exec rx text = (Some m, rx')"
    and x: "x = (index m, lastIndex rx')" and rest: "all_matches rx' text = Some ms"
    by (auto simp: all_matches_Cons_iff)
  from exec_SomeD[OF e Cons.prems(1)] Cons.IH[OF _ rest] exec_global[OF e] Cons.prems(1) x
  show ?case by simp
qed

lemma matches_wf_mono: "matches_wf k n ms \<Longrightarrow> k' \<le> k \<Longrightarrow> matches_wf k' n ms"
  by (cases ms) auto

lemma resolved_wf_of_matches:
  "matches_wf k n ms \<Longrightarrow> resolved_wf k n (resolved env cs text ms)"
proof (induction ms arbitrary: k)
  case Nil
  then show ?case by (simp add: resolved_def List.map_filter_simps)
next
  case (Cons x ms)
  obtain i e where x: "x = (i, e)" by (cases x)
  with Cons.prems have b: "k \<le> i" "i \<le> e" "e \<le> n" "matches_wf e n ms" by auto
  have "matches_wf k n ms" using b by (auto intro: matches_wf_mono)
  from Cons.IH[OF this] Cons.IH[OF b(4)] b x show ?case
    by (auto simp: resolved_def List.map_filter_simps resolve_def split: option.splits)
qed

lemma textContent_createHighlight [simp]: "textContent (createHighlight w a) = w"
  by (simp add: createHighlight_def Let_def)

lemma slice_join: "a \<le> i \<Longrightarrow> i \<le> e \<Longrightarrow> take a s @ slice s a i @ slice s i e = take e s"
proof -
  assume a: "a \<le> i" "i \<le> e"
  have 1: "take a s @ slice s a i = take i s"
    unfolding slice_def using a(1) by (metis le_add_diff_inverse take_add)
  have 2: "take i s @ slice s i e = take e s"
    unfolding slice_def using a(2) by (metis le_add_diff_inverse take_add)
  show ?thesis using 1 2 by (metis append_assoc)
qed

lemma slice_empty [simp]: "slice s i i = []"
  by (simp add: slice_def)

lemma fold_emit_text:
  "resolved_wf l (length text) rs \<Longrightarrow> concat (map textContent fr) = take l text \<Longrightarrow>
   concat (map textContent (fst (fold (emit text) rs (fr, l))))
     = take (snd (fold (emit text) rs (fr, l))) text"
proof (induction rs arbitrary: fr l)
  case Nil
  then show ?case by simp
next
  case (Cons r rs)
  obtain i e a where r: "r = (i, e, a)" by (cases r)
  with Cons.prems have b: "l \<le> i" "i \<le> e" "e \<le> length text" "resolved_wf e (length text) rs"
    by auto
  let ?fr = "fr @ (if i > l then [TextNode (slice text l i)] else []) @ [createHighlight (slice text i e) a]"
  have "concat (map textContent ?fr) = take l text @ slice text l i @ slice text i e"
    using Cons.prems(2) b(1) by (cases "i = l") auto
  then have "concat (map textContent ?fr) = take e text"
    using slice_join[OF b(1,2)] by simp
  from Cons.IH[OF b(4) this] r show ?case by simp
qed

lemma decompose_text:
  assumes "resolved_wf 0 (length text) rs"
  shows "concat (map textContent (decompose text rs)) = text"
proof -
  obtain fr l where f: "fold (emit text) rs ([], 0) = (fr, l)" by (cases "fold (emit text) rs ([], 0)")
  from fold_emit_text[OF assms, of "[]"] f have "concat (map textContent fr) = take l text" by simp
  with f show ?thesis by (simp add: decompose_def)
qed

lemma spec_apply_text:
  assumes "global rx" "spec_apply env text rx cs = Some (b, ns)"
  shows "concat (map textContent ns) = text"
proof -
  from assms(2) obtain ms where ms: "all_matches (rx\<lparr>lastIndex := 0\<rparr>) text = Some ms"
    by (auto simp: spec_apply_def split: option.splits)
  have "matches_wf 0 (length text) ms"
    using all_matches_wf[OF _ ms] assms(1) by simp
  then have "resolved_wf 0 (length text) (resolved env cs text ms)"
    by (rule resolved_wf_of_matches)
  from decompose_text[OF this] assms(2) ms show ?thesis
    by (auto simp: spec_apply_def Let_def split: if_splits)
qed

subsection \<open>What the script builds at its start\<close>

lemma makePattern_compiled: "makePattern nameList flags = Some (compiled nameList flags)"
  by (simp add: makePattern_eq compiled_def)

lemma init_eq:
  "init l cs = Some \<lparr>mainPattern = compiled l ''gi'',
                     csPattern = (case cs of None \<Rightarrow> None
                                  | Some es \<Rightarrow> if es = [] then None else Some (compiled es ''g'')),
                     anchorMapCI = build_anchorMapCI l,
                     anchorMapCS = build_anchorMapCS cs\<rparr>"
  by (simp add: init_def makePattern_compiled split: option.splits)

lemma compile_Nil_iff [simp]: "compile n = [] \<longleftrightarrow> n = []"
  by (simp add: compile_def)

lemma compile_Nil_iff2 [simp]: "[] = compile n \<longleftrightarrow> n = []"
  by (simp add: compile_def)

lemma set_sort_longest_first [simp]: "set (sort_longest_first l) = set l"
  by (simp add: sort_longest_first_def)

lemma empty_alt_iff:
  "[] \<in> set (compiled_alts nameList) \<longleftrightarrow> nameList = [] \<or> (\<exists>e\<in>set nameList. name e = [])"
  by (auto simp: compiled_alts_def image_iff)

lemma applyPattern_terminates_iff:
  assumes "global rx" "lastIndex rx = 0"
  shows "(\<exists>r. applyPattern env text rx cs = Some r) \<longleftrightarrow> [] \<notin> set (alts rx)"
proof (cases "[] \<in> set (alts rx)")
  case True
  then have "all_matches rx text = None"
    using all_matches_diverges[of rx "text"] assms by simp
  with True assms show ?thesis
    by (simp add: applyPattern_spec spec_apply_def)
next
  case False
  then obtain ms where "all_matches rx text = Some ms"
    using all_matches_terminates[of rx "text"] assms by auto
  with False assms show ?thesis
    by (auto simp: applyPattern_spec spec_apply_def Let_def)
qed

lemma compiled_sel [simp]:
  "global (compiled l flags) = (CHR ''g'' \<in> set flags)"
  "ignoreCase (compiled l flags) = (CHR ''i'' \<in> set flags)"
  "lastIndex (compiled l flags) = 0"
  "alts (compiled l flags) = compiled_alts l"
  by (simp_all add: compiled_def)

lemma init_SomeD:
  assumes "init l cs = Some env"
  shows "mainPattern env = compiled l ''gi''"
    and "csPattern env = Some csP \<Longrightarrow> \<exists>es. cs = Some es \<and> es \<noteq> [] \<and> csP = compiled es ''g''"
    and "anchorMapCI env = build_anchorMapCI l"
    and "anchorMapCS env = build_anchorMapCS cs"
  using assms unfolding init_eq by (auto split: option.splits if_splits)

lemma init_patterns_ready:
  assumes "init l cs = Some env"
  shows "global (mainPattern env) \<and> lastIndex (mainPattern env) = 0"
    and "csPattern env = Some csP \<Longrightarrow> global csP \<and> lastIndex csP = 0"
  using init_SomeD[OF assms] by auto

lemma highlightTextNode_spec:
  assumes "init l cs = Some env"
  shows "highlightTextNode env text =
           (case spec_apply env text (mainPattern env) False of
              None \<Rightarrow> None
            | Some (replaced, nodes) \<Rightarrow>
                if replaced then Some nodes
                else (case csPattern env of
                        None \<Rightarrow> Some [TextNode text]
                      | Some csP \<Rightarrow> map_option snd (spec_apply env text csP True)))"
proof -
  note m = init_patterns_ready(1)[OF assms]
  have main: "applyPattern env text (mainPattern env) False
        = map_option (\<lambda>(b, ns). (b, ns, mainPattern env)) (spec_apply env text (mainPattern env) False)"
    using m by (simp add: applyPattern_spec)
  have unchanged: "\<And>rx c ns. spec_apply env text rx c = Some (False, ns) \<Longrightarrow> ns = [TextNode text]"
    by (auto simp: spec_apply_def Let_def split: option.splits if_splits)
  show ?thesis
  proof (cases "csPattern env")
    case None
    then show ?thesis
      unfolding highlightTextNode_def main
      by (auto split: option.splits dest: unchanged)
  next
    case (Some csP)
    have csa: "applyPattern env text csP True
        = map_option (\<lambda>(b, ns). (b, ns, csP)) (spec_apply env text csP True)"
      using init_patterns_ready(2)[OF assms Some] by (simp add: applyPattern_spec)
    show ?thesis
      by (auto simp: highlightTextNode_def main csa Some split: option.splits)
  qed
qed

lemma highlightTextNode_text:
  assumes "init l cs = Some env" "highlightTextNode env text = Some nodes"
  shows "concat (map textContent nodes) = text"
proof -
  note m = init_patterns_ready(1)[OF assms(1)]
  from assms(2) obtain b ns where main: "spec_apply env text (mainPattern env) False = Some (b, ns)"
    unfolding highlightTextNode_spec[OF assms(1)] by (auto split: option.splits)
  show ?thesis
  proof (cases "b \<or> csPattern env = None")
    case True
    with assms(2) main have "nodes = ns \<or> nodes = [TextNode text]"
      unfolding highlightTextNode_spec[OF assms(1)] by (auto split: option.splits if_splits)
    with spec_apply_text[OF _ main] m show ?thesis by auto
  next
    case False
    then obtain csP where c: "csPattern env = Some csP" by auto
    with False assms(2) main obtain b' where "spec_apply env text csP True = Some (b', nodes)"
      unfolding highlightTextNode_spec[OF assms(1)] by (auto split: option.splits if_splits)
    with spec_apply_text[OF _ this] init_patterns_ready(2)[OF assms(1) c] show ?thesis by auto
  qed
qed

lemma length_compiled_alts: "length (compiled_alts l) = max 1 (length l)"
  by (cases l) (simp_all add: compiled_alts_def sort_longest_first_def)

subsection \<open>The calls of the observer\<close>





subsection \<open>The first alternative that matches\<close>

lemma sorted_sort_longest_first:
  "sorted (map (\<lambda>e. - int (length (name e))) (sort_longest_first l))"
  unfolding sort_longest_first_def by (rule sorted_sort_key)

lemma first_alt_longest:
  assumes "sorted (map (\<lambda>e. - int (length (name e))) es)" "e \<in> set es"
    and "match_items ic (compile (name e)) s \<noteq> None"
  shows "\<exists>e'\<in>set es. length (name e) \<le> length (name e')
           \<and> match_alts ic (map (\<lambda>e. compile (name e)) es) s = match_items ic (compile (name e')) s
           \<and> match_items ic (compile (name e')) s \<noteq> None"
  using assms
proof (induction es)
  case Nil
  then show ?case by simp
next
  case (Cons x es)
  show ?case
  proof (cases "match_items ic (compile (name x)) s")
    case None
    with Cons.prems have "e \<in> set es" by auto
    moreover from Cons.prems(1) have "sorted (map (\<lambda>e. - int (length (name e))) es)" by simp
    ultimately obtain e' where "e' \<in> set es" "length (name e) \<le> length (name e')"
      "match_alts ic (map (\<lambda>e. compile (name e)) es) s = match_items ic (compile (name e')) s"
      "match_items ic (compile (name e')) s \<noteq> None"
      using Cons.IH Cons.prems(3) by blast
    with None show ?thesis by auto
  next
    case (Some n)
    from Cons.prems(1,2) have "length (name e) \<le> length (name x)" by auto
    with Some show ?thesis by auto
  qed
qed

lemma compiled_alts_nonempty:
  "l \<noteq> [] \<Longrightarrow> compiled_alts l = map (\<lambda>e. compile (name e)) (sort_longest_first l)"
  by (simp add: compiled_alts_def)

subsection \<open>The markers and the maps\<close>

lemma fold_upd_Some:
  "fold (\<lambda>e m. m(f e \<mapsto> g e)) l m0 k = Some a \<Longrightarrow> (\<exists>e\<in>set l. f e = k \<and> g e = a) \<or> m0 k = Some a"
proof (induction l arbitrary: m0)
  case Nil
  then show ?case by simp
next
  case (Cons x l)
  from Cons.prems have "fold (\<lambda>e m. m(f e \<mapsto> g e)) l (m0(f x \<mapsto> g x)) k = Some a"
    unfolding fold.simps comp_apply .
  from Cons.IH[OF this] show ?case
    by (auto split: if_splits)
qed

lemma anchorMapCI_Some:
  "build_anchorMapCI l k = Some a \<Longrightarrow> \<exists>e\<in>set l. toLowerCase (name e) = k \<and> anchor e = a"
  unfolding build_anchorMapCI_def by (drule fold_upd_Some) auto

lemma anchorMapCS_Some:
  "build_anchorMapCS cs k = Some a \<Longrightarrow> \<exists>es. cs = Some es \<and> (\<exists>e\<in>set es. name e = k \<and> anchor e = a)"
  unfolding build_anchorMapCS_def
  by (cases cs) (auto dest!: fold_upd_Some)

lemma resolved_member:
  "(i, e, a) \<in> set (resolved env cs text ms) \<Longrightarrow>
     lookupAnchor env (slice text i e) cs = Some a \<and> a \<noteq> []"
  by (induction ms)
     (auto simp: resolved_def List.map_filter_simps resolve_def split: option.splits if_splits)

lemma fold_emit_nodes:
  "n \<in> set (fst (fold (emit text) rs (fr, l))) \<Longrightarrow>
     n \<in> set fr \<or> (\<exists>v. n = TextNode v) \<or> (\<exists>i e a. (i, e, a) \<in> set rs \<and> n = createHighlight (slice text i e) a)"
proof (induction rs arbitrary: fr l)
  case Nil
  then show ?case by simp
next
  case (Cons r rs)
  obtain i e a where r: "r = (i, e, a)" by (cases r)
  from Cons.prems r
  have "n \<in> set (fst (fold (emit text) rs
          (fr @ (if i > l then [TextNode (slice text l i)] else []) @ [createHighlight (slice text i e) a], e)))"
    by simp
  from Cons.IH[OF this] r show ?case by (auto split: if_splits)
qed

lemma decompose_nodes:
  "n \<in> set (decompose text rs) \<Longrightarrow>
     (\<exists>v. n = TextNode v) \<or> (\<exists>i e a. (i, e, a) \<in> set rs \<and> n = createHighlight (slice text i e) a)"
proof -
  assume a: "n \<in> set (decompose text rs)"
  obtain fr l where f: "fold (emit text) rs ([], 0) = (fr, l)" by (cases "fold (emit text) rs ([], 0)")
  with a have "n \<in> set fr \<or> (\<exists>v. n = TextNode v)"
    by (auto simp: decompose_def split: if_splits)
  with fold_emit_nodes[of n "text" rs "[]" 0] f show ?thesis by auto
qed

lemma is_marker_createHighlight [simp]: "is_marker (createHighlight w a)"
  by (simp add: createHighlight_def Let_def)

lemma spec_apply_markers:
  assumes "spec_apply env text rx cs = Some (b, ns)" "n \<in> set ns" "is_marker n"
  shows "\<exists>a. lookupAnchor env (textContent n) cs = Some a \<and> a \<noteq> [] \<and> n = createHighlight (textContent n) a"
proof -
  from assms obtain ms where ms: "all_matches (rx\<lparr>lastIndex := 0\<rparr>) text = Some ms"
    and ns: "ns = decompose text (resolved env cs text ms)"
    by (auto simp: spec_apply_def Let_def split: option.splits if_splits)
  from decompose_nodes[OF assms(2)[unfolded ns]] assms(3)
  obtain i e a where "(i, e, a) \<in> set (resolved env cs text ms)" "n = createHighlight (slice text i e) a"
    by auto
  with resolved_member[OF this(1)] show ?thesis by auto
qed

lemma highlightTextNode_markers:
  assumes "init l cs = Some env" "highlightTextNode env text = Some nodes" "n \<in> set nodes" "is_marker n"
  shows "(\<exists>a. lookupAnchor env (textContent n) False = Some a \<and> a \<noteq> [] \<and> n = createHighlight (textContent n) a)
       \<or> (\<exists>a. lookupAnchor env (textContent n) True = Some a \<and> a \<noteq> [] \<and> n = createHighlight (textContent n) a)"
proof -
  from assms(2) obtain b ns where main: "spec_apply env text (mainPattern env) False = Some (b, ns)"
    unfolding highlightTextNode_spec[OF assms(1)] by (auto split: option.splits)
  show ?thesis
  proof (cases "b \<or> csPattern env = None")
    case True
    with assms(2) main have "nodes = ns \<or> nodes = [TextNode text]"
      unfolding highlightTextNode_spec[OF assms(1)] by (auto split: option.splits if_splits)
    with spec_apply_markers[OF main, of n] assms(3,4) show ?thesis by auto
  next
    case False
    then obtain csP where c: "csPattern env = Some csP" by auto
    with False assms(2) main obtain b' where "spec_apply env text csP True = Some (b', nodes)"
      unfolding highlightTextNode_spec[OF assms(1)] by (auto split: option.splits if_splits)
    from spec_apply_markers[OF this assms(3,4)] show ?thesis by auto
  qed
qed

subsection \<open>Scanning the result of a scan\<close>

text \<open>
  The plain text between two markers, cut out of the segment, is scanned as the segment
  was between them: the same matches are found, none resolves, and at the end of the
  piece there is nothing to match (\<open>run_on_piece\<close>, \<open>piece_quiet\<close>). So every node
  that \<^verbatim>\<open>applyPattern\<close> produces is left alone when the same pattern meets it again.
\<close>

lemma match_at_upd [simp]: "match_at (rx\<lparr>lastIndex := q\<rparr>) text j = match_at rx text j"
  by (simp add: match_at_def)












lemma resolved_Nil [simp]: "resolved env cs text [] = []"
  by (simp add: resolved_def)







lemma quiet_createHighlight [simp]: "quiet env rx cs (createHighlight w a)"
  by (simp add: quiet_def createHighlight_def Let_def)







lemma acceptNode_in_marker [simp]:
  "acceptNode ((tag, [HL_CLASS]) # anc) w = FILTER_REJECT"
  by simp

lemma walk_createHighlight [simp]:
  "walk env anc (createHighlight w a) = Some [createHighlight w a]"
  by (simp add: createHighlight_def Let_def)







subsection \<open>Letters and white space\<close>

text \<open>
  The canonical form of the \<^verbatim>\<open>i\<close> flag and \<^verbatim>\<open>toLowerCase\<close> identify the same characters, and a
  character that either of them identifies with a white-space character is that character.
\<close>

lemma char_eq_iff_nat: "(x::char) = y \<longleftrightarrow> (of_char x :: nat) = of_char y" by auto

lemma of_char_canonicalize:
  "(of_char (canonicalize c) :: nat) =
     (if (97 \<le> (of_char c :: nat) \<and> (of_char c :: nat) \<le> 122) \<or> (224 \<le> (of_char c :: nat) \<and> (of_char c :: nat) \<le> 254 \<and> (of_char c :: nat) \<noteq> 247)
      then of_char c - 32 else of_char c)"
proof -
  have "(of_char c :: nat) - 32 < 256" by (rule less_imp_diff_less) simp
  then have "((of_char c :: nat) - 32) mod 256 = of_char c - 32" by (rule mod_less)
  then show ?thesis unfolding canonicalize_def Let_def by (simp only: of_char_of if_distrib[of of_char] cong: if_cong)
qed

lemma of_char_lower_unit:
  "(of_char (lower_unit c) :: nat) =
     (if (65 \<le> (of_char c :: nat) \<and> (of_char c :: nat) \<le> 90) \<or> (192 \<le> (of_char c :: nat) \<and> (of_char c :: nat) \<le> 222 \<and> (of_char c :: nat) \<noteq> 215)
      then of_char c + 32 else of_char c)"
proof (cases "(65 \<le> (of_char c :: nat) \<and> (of_char c :: nat) \<le> 90) \<or> (192 \<le> (of_char c :: nat) \<and> (of_char c :: nat) \<le> 222 \<and> (of_char c :: nat) \<noteq> 215)")
  case True
  then have "(of_char c :: nat) + 32 < 256" by arith
  then have "((of_char c :: nat) + 32) mod 256 = of_char c + 32" by (rule mod_less)
  with True show ?thesis unfolding lower_unit_def Let_def by (simp only: of_char_of if_True)
next
  case False
  then show ?thesis unfolding lower_unit_def Let_def by (simp only: if_False)
qed

lemma lower_canonicalize: "lower_unit (canonicalize c) = lower_unit c"
proof -
  define n :: nat where "n = of_char c"
  have "(of_char (lower_unit (canonicalize c)) :: nat) = of_char (lower_unit c)"
    unfolding of_char_lower_unit[of "canonicalize c"] of_char_lower_unit[of c] of_char_canonicalize
    unfolding n_def[symmetric]
    by (cases "(97 \<le> n \<and> n \<le> 122) \<or> (224 \<le> n \<and> n \<le> 254 \<and> n \<noteq> 247)") (simp_all, arith+)
  then show ?thesis by (simp only: char_eq_iff_nat)
qed

lemma canonicalize_lower: "canonicalize (lower_unit c) = canonicalize c"
proof -
  define n :: nat where "n = of_char c"
  have "(of_char (canonicalize (lower_unit c)) :: nat) = of_char (canonicalize c)"
    unfolding of_char_canonicalize[of "lower_unit c"] of_char_canonicalize[of c] of_char_lower_unit
    unfolding n_def[symmetric]
    by (cases "(65 \<le> n \<and> n \<le> 90) \<or> (192 \<le> n \<and> n \<le> 222 \<and> n \<noteq> 215)") (simp_all, arith+)
  then show ?thesis by (simp only: char_eq_iff_nat)
qed

lemma canon_lower: "canonicalize c = canonicalize d \<longleftrightarrow> lower_unit c = lower_unit d"
  by (metis lower_canonicalize canonicalize_lower)

lemma is_space_lower_unit: "is_space (lower_unit d) = is_space d"
proof -
  define n :: nat where "n = of_char d"
  show ?thesis
    unfolding is_space_def of_char_lower_unit n_def[symmetric]
    by (cases "(65 \<le> n \<and> n \<le> 90) \<or> (192 \<le> n \<and> n \<le> 222 \<and> n \<noteq> 215)") (simp_all, arith)
qed

lemma is_space_lower: "lower_unit c = lower_unit d \<Longrightarrow> is_space c = is_space d"
  by (metis is_space_lower_unit)

lemma lower_space_iff: "lower_unit c = lower_unit (CHR '' '') \<longleftrightarrow> c = CHR '' ''"
  unfolding char_eq_iff_nat[of "lower_unit c"] char_eq_iff_nat[of c] of_char_lower_unit
  by (auto split: if_splits)

lemma is_space_blank [simp]: "is_space (CHR '' '')"
  by (simp add: is_space_def)

subsection \<open>Occurrences of a name\<close>

text \<open>
  The alternative of a name matches at the beginning of every text that begins with an
  occurrence of the name, and what it matches is an occurrence of the name. The key that
  \<^verbatim>\<open>lookupAnchor\<close> makes of an occurrence of a well-formed name is the key under which the
  name is in the map.
\<close>

lemma occurs_match:
  "occurs ic n w \<Longrightarrow> match_items ic (compile n) (w @ rest) \<noteq> None"
proof (induction ic n w rule: occurs.induct)
  case (1 ic w)
  then show ?case by (simp add: compile_def)
next
  case (2 ic c n)
  then show ?case by simp
next
  case (3 ic c n d w)
  show ?case
  proof (cases "c = CHR '' ''")
    case True
    with "3.prems" have sp: "is_space d" and d: "occurs ic n w \<or> occurs ic (c # n) w" by auto
    have c: "compile (c # n) = Plus Space # compile n" using True by (simp add: compile_def)
    from d show ?thesis
    proof
      assume "occurs ic n w"
      from "3.IH"(1)[OF True this] obtain j where "match_items ic (compile n) (w @ rest) = Some j" by auto
      with sp show ?thesis
        by (cases "match_items ic (Plus Space # compile n) (w @ rest)") (simp_all add: c atom_ok_def)
    next
      assume "occurs ic (c # n) w"
      from "3.IH"(2)[OF True this] obtain j where "match_items ic (Plus Space # compile n) (w @ rest) = Some j"
        by (auto simp: c)
      with sp show ?thesis by (simp add: c atom_ok_def)
    qed
  next
    case False
    with "3.prems" have ok: "if ic then canonicalize c = canonicalize d else c = d" and o: "occurs ic n w"
      by auto
    from "3.IH"(3)[OF False o] obtain j where "match_items ic (compile n) (w @ rest) = Some j" by auto
    with ok False show ?thesis by (auto simp: compile_def atom_ok_def split: if_splits)
  qed
qed

lemma match_occurs:
  "match_items ic (compile n) s = Some k \<Longrightarrow> occurs ic n (take k s)"
proof (induction s arbitrary: n k)
  case Nil
  then show ?case by (cases n) (auto simp: compile_def split: if_splits)
next
  case (Cons d s)
  show ?case
  proof (cases n)
    case Nil
    with Cons.prems show ?thesis by (simp add: compile_def)
  next
    case (Cons c n')
    show ?thesis
    proof (cases "c = CHR '' ''")
      case True
      then have c: "compile n = Plus Space # compile n'" using Cons by (simp add: compile_def)
      from Cons.prems have sp: "is_space d"
        by (auto simp: c atom_ok_def split: if_splits)
      show ?thesis
      proof (cases "match_items ic (Plus Space # compile n') s")
        case None
        with Cons.prems sp obtain j where j: "match_items ic (compile n') s = Some j" "k = Suc j"
          by (auto simp: c atom_ok_def)
        from Cons.IH[OF j(1)] j(2) sp True Cons show ?thesis by simp
      next
        case (Some j)
        with Cons.prems sp have k: "k = Suc j" by (simp add: c atom_ok_def)
        from Some have "match_items ic (compile n) s = Some j" by (simp add: c)
        from Cons.IH[OF this] k sp True Cons show ?thesis by simp
      qed
    next
      case False
      then have c: "compile n = One (Lit c) # compile n'" using Cons by (simp add: compile_def)
      from Cons.prems obtain j where ok: "atom_ok ic (Lit c) d" and j: "match_items ic (compile n') s = Some j" "k = Suc j"
        by (auto simp: c split: if_splits)
      from Cons.IH[OF j(1)] j(2) ok False Cons show ?thesis by (auto simp: atom_ok_def split: if_splits)
    qed
  qed
qed

lemma length_collapse_ws: "length (collapse_ws s) \<le> length s"
proof (induction s rule: collapse_ws.induct)
  case 1
  then show ?case by simp
next
  case (2 c s)
  have "length (dropWhile is_space s) \<le> length s" by (rule length_dropWhile_le)
  with 2 show ?case by (auto simp: le_Suc_eq)
qed

lemma collapse_ws_fixD:
  assumes "collapse_ws (c # n) = c # n"
  shows "collapse_ws n = n" and "is_space c \<Longrightarrow> c = CHR '' '' \<and> (n = [] \<or> \<not> is_space (hd n))"
proof -
  show "collapse_ws n = n"
  proof (cases "is_space c")
    case False
    with assms show ?thesis by simp
  next
    case True
    with assms have eq: "collapse_ws (dropWhile is_space n) = n" by simp
    have "dropWhile is_space n = n"
    proof (rule ccontr)
      assume "dropWhile is_space n \<noteq> n"
      then obtain x n' where n: "n = x # n'" "is_space x" by (cases n) (auto split: if_splits)
      have "length (collapse_ws (dropWhile is_space n)) \<le> length (dropWhile is_space n')"
        using length_collapse_ws[of "dropWhile is_space n"] n by simp
      also have "\<dots> \<le> length n'" by (rule length_dropWhile_le)
      finally show False using eq n by simp
    qed
    with eq show ?thesis by simp
  qed
  show "is_space c \<Longrightarrow> c = CHR '' '' \<and> (n = [] \<or> \<not> is_space (hd n))"
  proof -
    assume sp: "is_space c"
    with assms have c: "c = CHR '' ''" and eq: "collapse_ws (dropWhile is_space n) = n" by simp_all
    have "n = [] \<or> \<not> is_space (hd n)"
    proof (rule ccontr)
      assume "\<not> (n = [] \<or> \<not> is_space (hd n))"
      then obtain x n' where n: "n = x # n'" "is_space x" by (cases n) auto
      have "length (collapse_ws (dropWhile is_space n)) \<le> length (dropWhile is_space n')"
        using length_collapse_ws[of "dropWhile is_space n"] n by simp
      also have "\<dots> \<le> length n'" by (rule length_dropWhile_le)
      finally show False using eq n by simp
    qed
    with c show ?thesis by simp
  qed
qed

lemma atom_nonspace:
  assumes "if ic then canonicalize c = canonicalize d else c = d" "\<not> is_space c"
  shows "\<not> is_space d"
proof (cases ic)
  case True
  with assms(1) have "lower_unit c = lower_unit d" by (simp add: canon_lower)
  from is_space_lower[OF this] assms(2) show ?thesis by simp
next
  case False
  with assms show ?thesis by simp
qed

lemma occurs_hd_nonspace:
  assumes "occurs ic n m" "n = [] \<or> \<not> is_space (hd n)"
  shows "m = [] \<or> \<not> is_space (hd m)"
proof (cases n)
  case Nil
  with assms(1) show ?thesis by simp
next
  case (Cons c n')
  with assms(2) have ns: "\<not> is_space c" by simp
  then have "c \<noteq> CHR '' ''" by auto
  with assms(1) Cons obtain d m' where "m = d # m'" "if ic then canonicalize c = canonicalize d else c = d"
    by (cases m) auto
  with atom_nonspace[OF this(2) ns] show ?thesis by simp
qed

lemma occurs_collapse:
  "(\<forall>c d. (if ic then canonicalize c = canonicalize d else c = d) \<longrightarrow> g d = g c) \<Longrightarrow>
   occurs ic n m \<Longrightarrow> collapse_ws n = n \<Longrightarrow> map g (collapse_ws m) = map g n"
proof (induction ic n m rule: occurs.induct)
  case (1 ic w)
  then show ?case by simp
next
  case (2 ic c n)
  then show ?case by simp
next
  case (3 ic c n d w)
  note fx = collapse_ws_fixD[OF "3.prems"(3)]
  show ?case
  proof (cases "c = CHR '' ''")
    case True
    with "3.prems"(2) have sp: "is_space d" and dj: "occurs ic n w \<or> occurs ic (c # n) w" by auto
    from fx(2) True have hd: "n = [] \<or> \<not> is_space (hd n)" by simp
    from dj show ?thesis
    proof
      assume o: "occurs ic n w"
      from occurs_hd_nonspace[OF o hd] have "dropWhile is_space w = w" by (cases w) auto
      with "3.IH"(1)[OF True "3.prems"(1) o fx(1)] sp True show ?thesis by simp
    next
      assume o: "occurs ic (c # n) w"
      with True obtain d' w' where w: "w = d' # w'" "is_space d'" by (cases w) auto
      then have "collapse_ws (d # w) = collapse_ws w" using sp by simp
      with "3.IH"(2)[OF True "3.prems"(1) o "3.prems"(3)] show ?thesis by simp
    qed
  next
    case False
    with "3.prems"(2) have ok: "if ic then canonicalize c = canonicalize d else c = d" and o: "occurs ic n w"
      by auto
    from fx(2) False have ns: "\<not> is_space c" by auto
    from atom_nonspace[OF ok ns] have "\<not> is_space d" .
    with "3.IH"(3)[OF False "3.prems"(1) o fx(1)] "3.prems"(1)[rule_format, OF ok] show ?thesis by simp
  qed
qed

lemma dropWhile_noop: "xs = [] \<or> \<not> P (hd xs) \<Longrightarrow> dropWhile P xs = xs"
  by (cases xs) auto

lemma dropWhile_shorter: "xs \<noteq> [] \<Longrightarrow> P (hd xs) \<Longrightarrow> length (dropWhile P xs) < length xs"
  by (cases xs) (auto simp: length_dropWhile_le less_Suc_eq_le)

lemma trim_noop: "s = [] \<or> (\<not> is_space (hd s) \<and> \<not> is_space (last s)) \<Longrightarrow> trim s = s"
proof (cases s)
  case Nil
  then show ?thesis by (simp add: trim_def)
next
  case (Cons a t)
  assume "s = [] \<or> (\<not> is_space (hd s) \<and> \<not> is_space (last s))"
  with Cons have h: "\<not> is_space (hd s)" and l: "\<not> is_space (last s)" by auto
  from h Cons have 1: "dropWhile is_space s = s" by simp
  have "hd (rev s) = last s" using Cons by (simp add: hd_rev)
  with l have "dropWhile is_space (rev s) = rev s"
    by (intro dropWhile_noop) simp
  with 1 show ?thesis by (simp add: trim_def)
qed

lemma trim_fixD:
  assumes "trim s = s" "s \<noteq> []"
  shows "\<not> is_space (hd s) \<and> \<not> is_space (last s)"
proof -
  have len: "length (dropWhile is_space (rev (dropWhile is_space s))) = length s"
    using assms(1) by (metis length_rev trim_def)
  have a: "length (dropWhile is_space (rev (dropWhile is_space s))) \<le> length (dropWhile is_space s)"
    using length_dropWhile_le[of is_space "rev (dropWhile is_space s)"] by simp
  have h: "\<not> is_space (hd s)"
  proof
    assume "is_space (hd s)"
    from dropWhile_shorter[OF assms(2), of is_space, OF this] len a show False by simp
  qed
  then have d: "dropWhile is_space s = s" by (intro dropWhile_noop) simp
  with len have e2: "length (dropWhile is_space (rev s)) = length (rev s)" by simp
  have "\<not> is_space (last s)"
  proof
    assume "is_space (last s)"
    moreover have "hd (rev s) = last s" using assms(2) by (simp add: hd_rev)
    ultimately have "is_space (hd (rev s))" by simp
    from dropWhile_shorter[of "rev s" is_space, OF _ this] assms(2) e2 show False by simp
  qed
  with h show ?thesis by simp
qed

lemma occurs_key:
  assumes "occurs ic n m" "collapse_ws n = n" "trim n = n"
  shows "if ic then toLowerCase (trim (collapse_ws m)) = toLowerCase n else trim (collapse_ws m) = n"
proof -
  let ?g = "if ic then lower_unit else id"
  have g: "\<And>c d. (if ic then canonicalize c = canonicalize d else c = d) \<Longrightarrow> ?g d = ?g c"
    by (auto simp: canon_lower)
  from g have "\<forall>c d. (if ic then canonicalize c = canonicalize d else c = d) \<longrightarrow> ?g d = ?g c"
    by blast
  from occurs_collapse[OF this assms(1,2)]
  have eq: "map ?g (collapse_ws m) = map ?g n" by simp
  have sp: "\<And>x y. ?g x = ?g y \<Longrightarrow> is_space x = is_space y"
    by (auto dest: is_space_lower split: if_splits)
  show ?thesis
  proof (cases "n = []")
    case True
    with eq have "collapse_ws m = []" by simp
    with True show ?thesis by (simp add: trim_def toLowerCase_def)
  next
    case False
    from eq have len: "length (collapse_ws m) = length n" by (metis length_map)
    with False have ne: "collapse_ws m \<noteq> []" by auto
    have "?g (hd (collapse_ws m)) = ?g (hd n)" using eq ne False by (metis hd_map)
    moreover have "?g (last (collapse_ws m)) = ?g (last n)" using eq ne False by (metis last_map)
    ultimately have "\<not> is_space (hd (collapse_ws m)) \<and> \<not> is_space (last (collapse_ws m))"
      using trim_fixD[OF assms(3) False] sp by metis
    then have "trim (collapse_ws m) = collapse_ws m" by (intro trim_noop) simp
    with eq show ?thesis by (simp add: toLowerCase_def split: if_splits)
  qed
qed

lemma occurs_lower_cong:
  "toLowerCase n = toLowerCase n' \<Longrightarrow> occurs True n w = occurs True n' w"
proof (induction w arbitrary: n n')
  case Nil
  then show ?case by (cases n; cases n') (simp_all add: toLowerCase_def)
next
  case (Cons d w)
  show ?case
  proof (cases n)
    case Nil
    with Cons.prems show ?thesis by (cases n') (simp_all add: toLowerCase_def)
  next
    case n: (Cons c t)
    with Cons.prems obtain c' t' where n': "n' = c' # t'" and c: "lower_unit c = lower_unit c'"
      and t: "toLowerCase t = toLowerCase t'"
      by (cases n') (auto simp: toLowerCase_def)
    have sp: "c = CHR '' '' \<longleftrightarrow> c' = CHR '' ''"
      using c lower_space_iff[of c] lower_space_iff[of c'] by metis
    have cn: "canonicalize c = canonicalize c'" using c by (simp add: canon_lower)
    from Cons.IH[OF t] Cons.IH[OF Cons.prems] n n' sp cn show ?thesis by simp
  qed
qed

text \<open>
  The first alternative that matches where a well-formed name stands consumes at least the
  occurrence of that name, when its own name is well formed and at least as long.
\<close>

lemma collapse_ws_nonempty: "s \<noteq> [] \<Longrightarrow> collapse_ws s \<noteq> []"
  by (cases s) auto

lemma collapse_ws_prefix_shorter:
  "r \<noteq> [] \<Longrightarrow> \<not> is_space (last r) \<Longrightarrow> length (collapse_ws m) < length (collapse_ws (m @ r))"
proof (induction m rule: collapse_ws.induct)
  case 1
  then show ?case using collapse_ws_nonempty[of r] by simp
next
  case (2 c s)
  show ?case
  proof (cases "is_space c")
    case False
    with 2 show ?thesis by simp
  next
    case True
    show ?thesis
    proof (cases "dropWhile is_space s = []")
      case e: True
      then have all: "\<forall>x\<in>set s. is_space x" by (simp add: dropWhile_eq_Nil_conv)
      then have dw: "dropWhile is_space (s @ r) = dropWhile is_space r" by (simp add: dropWhile_append)
      have "dropWhile is_space r \<noteq> []"
        using "2.prems" by (metis dropWhile_eq_Nil_conv last_in_set)
      then have "collapse_ws (dropWhile is_space r) \<noteq> []" by (rule collapse_ws_nonempty)
      then have pos: "0 < length (collapse_ws (dropWhile is_space r))" by simp
      have a: "collapse_ws (c # s) = [CHR '' '']"
        unfolding collapse_ws.simps(2)[of c s] e using True by simp
      have b: "collapse_ws ((c # s) @ r) = CHR '' '' # collapse_ws (dropWhile is_space r)"
        unfolding append_Cons collapse_ws.simps(2)[of c "s @ r"] dw using True by simp
      show ?thesis unfolding a b using pos by simp
    next
      case ne: False
      then have "\<exists>x\<in>set s. \<not> is_space x" by (simp add: dropWhile_eq_Nil_conv)
      then have "dropWhile is_space (s @ r) = dropWhile is_space s @ r"
        by (auto simp: dropWhile_append)
      with "2.IH"(1)[OF True "2.prems"] True show ?thesis by simp
    qed
  qed
qed

lemma occurs_last_nonspace:
  "occurs ic n w \<Longrightarrow> n \<noteq> [] \<Longrightarrow> \<not> is_space (last n) \<Longrightarrow> w \<noteq> [] \<and> \<not> is_space (last w)"
proof (induction ic n w rule: occurs.induct)
  case (1 ic w)
  then show ?case by simp
next
  case (2 ic c n)
  then show ?case by simp
next
  case (3 ic c n d w)
  show ?case
  proof (cases "c = CHR '' ''")
    case True
    with "3.prems"(3) have ne: "n \<noteq> []" by auto
    with "3.prems"(3) have ln: "\<not> is_space (last n)" by simp
    from True "3.prems"(1) have "occurs ic n w \<or> occurs ic (c # n) w" by auto
    then have "w \<noteq> [] \<and> \<not> is_space (last w)"
    proof
      assume "occurs ic n w"
      from "3.IH"(1)[OF True this ne ln] show ?thesis .
    next
      assume "occurs ic (c # n) w"
      from "3.IH"(2)[OF True this "3.prems"(2,3)] show ?thesis .
    qed
    then show ?thesis by simp
  next
    case False
    with "3.prems"(1) have ok: "if ic then canonicalize c = canonicalize d else c = d" and o: "occurs ic n w"
      by auto
    show ?thesis
    proof (cases "n = []")
      case True
      with o have "w = []" by simp
      moreover from True "3.prems"(3) have "\<not> is_space c" by simp
      ultimately show ?thesis using atom_nonspace[OF ok] by simp
    next
      case ne: False
      with "3.prems"(3) have "\<not> is_space (last n)" by simp
      from "3.IH"(3)[OF False o ne this] show ?thesis by simp
    qed
  qed
qed

lemma occurs_collapse_length:
  assumes "occurs ic n m" "collapse_ws n = n"
  shows "length (collapse_ws m) = length n"
proof -
  have "map (\<lambda>_. ()) (collapse_ws m) = map (\<lambda>_. ()) n"
    using assms by (intro occurs_collapse) simp_all
  then show ?thesis by (metis length_map)
qed

lemma occurs_covers:
  assumes m: "occurs ic n1 (take k (w @ post))" and w: "occurs ic n w"
    and n1: "collapse_ws n1 = n1" and n: "collapse_ws n = n" "trim n = n" "n \<noteq> []"
    and le: "length n \<le> length n1"
  shows "length w \<le> k"
proof (rule ccontr)
  assume "\<not> length w \<le> k"
  then have k: "k < length w" by simp
  then have tk: "take k (w @ post) = take k w" by simp
  have wr: "w = take k w @ drop k w" by simp
  from trim_fixD[OF n(2,3)] have "\<not> is_space (last n)" by simp
  from occurs_last_nonspace[OF w n(3) this] have lw: "w \<noteq> []" "\<not> is_space (last w)" by simp_all
  have r: "drop k w \<noteq> []" using k by simp
  then have "last (drop k w) = last w" by (metis last_appendR wr)
  with lw have lr: "\<not> is_space (last (drop k w))" by simp
  from collapse_ws_prefix_shorter[OF r lr, of "take k w"]
  have "length (collapse_ws (take k w)) < length (collapse_ws w)" by simp
  moreover have "length (collapse_ws (take k w)) = length n1"
    using occurs_collapse_length[OF m n1] by (simp only: tk)
  moreover have "length (collapse_ws w) = length n" by (rule occurs_collapse_length[OF w n(1)])
  ultimately show False using le by simp
qed

subsection \<open>Where a match becomes a marker\<close>

text \<open>
  The scan finds the match at every position at which there is one and which does not lie
  inside an earlier match that it found (\<open>found_if_not_covered\<close>). A match that the scan
  finds and whose lookup gives a non-empty anchor is a marker in the fragment, with the
  text of the segment up to the match before it and the text after the match behind it
  (\<open>spec_apply_highlights\<close>). The match at a position is taken by the first alternative
  that matches there, and no entry with a longer name stands behind it in the pattern
  (\<open>longest_first_match_at\<close>).
\<close>

lemma found_if_not_covered:
  "all_matches rx t = Some ms \<Longrightarrow> global rx \<Longrightarrow> lastIndex rx \<le> p \<Longrightarrow> p \<le> length t \<Longrightarrow>
   match_at rx t p = Some n \<Longrightarrow> \<forall>(i, j)\<in>set ms. \<not> (i < p \<and> p < j) \<Longrightarrow> (p, p + n) \<in> set ms"
proof (induction ms arbitrary: rx)
  case Nil
  then obtain rx' where e: "exec rx t = (None, rx')"
    by (metis all_matches_Nil_iff fst_conv surj_pair)
  from exec_NoneD[OF e Nil.prems(2)] Nil.prems(3,4,5) show ?case by auto
next
  case (Cons x ms)
  from Cons.prems(1) obtain m rx' where e: "exec rx t = (Some m, rx')"
    and x: "x = (index m, lastIndex rx')" and rest: "all_matches rx' t = Some ms"
    by (auto simp: all_matches_Cons_iff)
  from exec_SomeD[OF e Cons.prems(2)]
  have b: "lastIndex rx \<le> index m" "index m \<le> lastIndex rx'" "lastIndex rx' \<le> length t"
    and rx': "rx' = rx\<lparr>lastIndex := lastIndex rx'\<rparr>"
    and ma: "match_at rx t (index m) = Some (lastIndex rx' - index m)"
    and none: "\<forall>k. lastIndex rx \<le> k \<and> k < index m \<longrightarrow> match_at rx t k = None"
    by auto
  have le: "index m \<le> p"
  proof (rule ccontr)
    assume "\<not> index m \<le> p"
    with none Cons.prems(3) have "match_at rx t p = None" by auto
    with Cons.prems(5) show False by simp
  qed
  show ?case
  proof (cases "index m = p")
    case True
    with ma Cons.prems(5) b have "lastIndex rx' = p + n" by simp
    with True x show ?thesis by simp
  next
    case False
    with le have lt: "index m < p" by simp
    from Cons.prems(6) x have "\<not> (index m < p \<and> p < lastIndex rx')" by auto
    with lt have l': "lastIndex rx' \<le> p" by simp
    have g': "global rx'" using exec_global[OF e] Cons.prems(2) by simp
    have m': "match_at rx' t p = Some n"
      using Cons.prems(5) by (subst rx') simp
    from Cons.prems(6) have "\<forall>(i, j)\<in>set ms. \<not> (i < p \<and> p < j)" by simp
    from Cons.IH[OF rest g' l' Cons.prems(4) m' this] show ?thesis by simp
  qed
qed

lemma fold_emit_prefix: "\<exists>X. fst (fold (emit t) rs (fr, l)) = fr @ X"
proof (induction rs arbitrary: fr l)
  case Nil
  then show ?case by simp
next
  case (Cons r rs)
  obtain i e a where r: "r = (i, e, a)" by (cases r)
  from Cons.IH[of "fr @ (if i > l then [TextNode (slice t l i)] else []) @ [createHighlight (slice t i e) a]" e]
  show ?case by (auto simp: r)
qed

lemma fold_emit_member:
  "resolved_wf l (length t) rs \<Longrightarrow> (i, e, a) \<in> set rs \<Longrightarrow> concat (map textContent fr) = take l t \<Longrightarrow>
   \<exists>A B. fst (fold (emit t) rs (fr, l)) = A @ createHighlight (slice t i e) a # B
        \<and> concat (map textContent A) = take i t"
proof (induction rs arbitrary: fr l)
  case Nil
  then show ?case by simp
next
  case (Cons r rs)
  obtain i0 e0 a0 where r: "r = (i0, e0, a0)" by (cases r)
  with Cons.prems(1) have b: "l \<le> i0" "i0 \<le> e0" "e0 \<le> length t" "resolved_wf e0 (length t) rs"
    by auto
  let ?gap = "if i0 > l then [TextNode (slice t l i0)] else []"
  let ?fr = "fr @ ?gap @ [createHighlight (slice t i0 e0) a0]"
  have step: "fold (emit t) (r # rs) (fr, l) = fold (emit t) rs (?fr, e0)" by (simp add: r)
  have gap: "concat (map textContent (fr @ ?gap)) = take i0 t"
  proof (cases "i0 > l")
    case True
    have "take l t @ slice t l i0 = take i0 t"
      unfolding slice_def using b(1) by (metis le_add_diff_inverse take_add)
    with True Cons.prems(3) show ?thesis by simp
  next
    case False
    with b(1) have "i0 = l" by simp
    with Cons.prems(3) show ?thesis by simp
  qed
  have full: "concat (map textContent ?fr) = take e0 t"
  proof -
    have "concat (map textContent ?fr) = concat (map textContent (fr @ ?gap)) @ slice t i0 e0"
      by simp
    also have "\<dots> = take i0 t @ slice t i0 e0" by (simp only: gap)
    also have "\<dots> = take e0 t"
      unfolding slice_def using b(2) by (metis le_add_diff_inverse take_add)
    finally show ?thesis .
  qed
  show ?case
  proof (cases "(i, e, a) = r")
    case True
    obtain X where "fst (fold (emit t) rs (?fr, e0)) = ?fr @ X"
      using fold_emit_prefix[of t rs ?fr e0] by blast
    then have "fst (fold (emit t) (r # rs) (fr, l)) = (fr @ ?gap) @ createHighlight (slice t i e) a # X"
      using True r unfolding step by simp
    with gap True r show ?thesis by blast
  next
    case False
    with Cons.prems(2) have "(i, e, a) \<in> set rs" by auto
    from Cons.IH[OF b(4) this full] show ?thesis unfolding step .
  qed
qed

lemma decompose_member:
  assumes "resolved_wf 0 (length t) rs" "(i, e, a) \<in> set rs"
  shows "\<exists>A B. decompose t rs = A @ createHighlight (slice t i e) a # B
        \<and> concat (map textContent A) = take i t"
proof -
  obtain fr l where f: "fold (emit t) rs ([], 0) = (fr, l)" by (cases "fold (emit t) rs ([], 0)")
  from fold_emit_member[OF assms, of "[]"] f obtain A B where
    "fr = A @ createHighlight (slice t i e) a # B" "concat (map textContent A) = take i t" by auto
  with f show ?thesis by (auto simp: decompose_def)
qed

lemma resolved_memberI:
  "x \<in> set ms \<Longrightarrow> resolve env cs t x = Some r \<Longrightarrow> r \<in> set (resolved env cs t ms)"
  by (induction ms) (auto simp: resolved_def List.map_filter_simps split: option.splits)

lemma matches_wf_member:
  "matches_wf k n ms \<Longrightarrow> (i, j) \<in> set ms \<Longrightarrow> k \<le> i \<and> i \<le> j \<and> j \<le> n"
proof (induction ms arbitrary: k)
  case Nil
  then show ?case by simp
next
  case (Cons x ms)
  obtain i0 e0 where x: "x = (i0, e0)" by (cases x)
  with Cons.prems have b: "k \<le> i0" "i0 \<le> e0" "e0 \<le> n" "matches_wf e0 n ms" by auto
  show ?case
  proof (cases "(i, j) = x")
    case True
    with x b show ?thesis by simp
  next
    case False
    with Cons.prems(2) have "(i, j) \<in> set ms" by auto
    from Cons.IH[OF b(4) this] b show ?thesis by simp
  qed
qed

lemma spec_apply_highlights:
  assumes "global rx" "all_matches (rx\<lparr>lastIndex := 0\<rparr>) t = Some ms" "(i, j) \<in> set ms"
    and "lookupAnchor env (slice t i j) cs = Some a" "a \<noteq> []"
  shows "\<exists>A B. spec_apply env t rx cs = Some (True, A @ createHighlight (slice t i j) a # B)
           \<and> concat (map textContent A) = take i t \<and> concat (map textContent B) = drop j t"
proof -
  have wf: "matches_wf 0 (length t) ms" using all_matches_wf[OF _ assms(2)] assms(1) by simp
  then have rwf: "resolved_wf 0 (length t) (resolved env cs t ms)" by (rule resolved_wf_of_matches)
  from matches_wf_member[OF wf assms(3)] have b: "i \<le> j" "j \<le> length t" by auto
  have "resolve env cs t (i, j) = Some (i, j, a)" using assms(4,5) by (simp add: resolve_def)
  from resolved_memberI[OF assms(3) this] have mem: "(i, j, a) \<in> set (resolved env cs t ms)" .
  then have ne: "resolved env cs t ms \<noteq> []" by auto
  from decompose_member[OF rwf mem] obtain A B where
    d: "decompose t (resolved env cs t ms) = A @ createHighlight (slice t i j) a # B"
    and A: "concat (map textContent A) = take i t" by blast
  have s: "spec_apply env t rx cs = Some (True, A @ createHighlight (slice t i j) a # B)"
    using assms(2) ne d by (simp add: spec_apply_def Let_def)
  from spec_apply_text[OF assms(1) s]
  have "take i t @ slice t i j @ concat (map textContent B) = t" using A by simp
  moreover have "take i t @ slice t i j = take j t"
    unfolding slice_def using b(1) by (metis le_add_diff_inverse take_add)
  ultimately have "take j t @ concat (map textContent B) = take j t @ drop j t"
    by (metis append_assoc append_take_drop_id)
  then have "concat (map textContent B) = drop j t" by (simp only: same_append_eq)
  with s A show ?thesis by blast
qed

lemma longest_first_match_at:
  assumes "e \<in> set l"
    and "match_items (CHR ''i'' \<in> set flags) (compile (name e)) (drop p t) \<noteq> None"
  shows "\<exists>e' n. e' \<in> set l \<and> length (name e) \<le> length (name e')
           \<and> match_items (CHR ''i'' \<in> set flags) (compile (name e')) (drop p t) = Some n
           \<and> match_at (compiled l flags) t p = Some n"
proof -
  let ?ic = "CHR ''i'' \<in> set flags"
  from assms(1) have ne: "l \<noteq> []" by auto
  from first_alt_longest[OF sorted_sort_longest_first, of e l ?ic "drop p t"] assms
  obtain e' where e': "e' \<in> set l" "length (name e) \<le> length (name e')"
    "match_alts ?ic (compiled_alts l) (drop p t) = match_items ?ic (compile (name e')) (drop p t)"
    "match_items ?ic (compile (name e')) (drop p t) \<noteq> None"
    by (auto simp: compiled_alts_nonempty[OF ne])
  then obtain n where n: "match_items ?ic (compile (name e')) (drop p t) = Some n" by auto
  with e' show ?thesis by (auto simp: match_at_def compiled_def)
qed

lemma fold_upd_dom:
  "(\<exists>e\<in>set l. f e = k) \<or> m0 k \<noteq> None \<Longrightarrow> fold (\<lambda>e m. m(f e \<mapsto> g e)) l m0 k \<noteq> None"
proof (induction l arbitrary: m0)
  case Nil
  then show ?case by simp
next
  case (Cons x l)
  have "(\<exists>e\<in>set l. f e = k) \<or> (m0(f x \<mapsto> g x)) k \<noteq> None" using Cons.prems by auto
  from Cons.IH[of "m0(f x \<mapsto> g x)", OF this] show ?case by simp
qed

lemma anchorMapCI_dom:
  assumes "e \<in> set l"
  shows "\<exists>e'\<in>set l. toLowerCase (name e') = toLowerCase (name e)
           \<and> build_anchorMapCI l (toLowerCase (name e)) = Some (anchor e')"
proof -
  have "build_anchorMapCI l (toLowerCase (name e)) \<noteq> None"
    unfolding build_anchorMapCI_def using assms by (intro fold_upd_dom) auto
  then obtain a where a: "build_anchorMapCI l (toLowerCase (name e)) = Some a" by auto
  from anchorMapCI_Some[OF a] a show ?thesis by auto
qed

lemma anchorMapCS_dom:
  assumes "e \<in> set l"
  shows "\<exists>e'\<in>set l. name e' = name e \<and> build_anchorMapCS (Some l) (name e) = Some (anchor e')"
proof -
  have "fold (\<lambda>e m. m(name e \<mapsto> anchor e)) l Map.empty (name e) \<noteq> None"
    using assms by (intro fold_upd_dom) auto
  then have "build_anchorMapCS (Some l) (name e) \<noteq> None"
    by (simp add: build_anchorMapCS_def)
  then obtain a where a: "build_anchorMapCS (Some l) (name e) = Some a" by auto
  from anchorMapCS_Some[OF a] a show ?thesis by auto
qed

lemma reached_iff:
  "reached rx t p \<longleftrightarrow> (\<forall>ms. all_matches rx t = Some ms \<longrightarrow> (\<forall>(i, j)\<in>set ms. \<not> (i < p \<and> p < j)))"
  by (auto simp: reached_def list_all_iff split: option.splits)

lemma all_matches_match_at:
  "all_matches rx t = Some ms \<Longrightarrow> global rx \<Longrightarrow> (i, j) \<in> set ms \<Longrightarrow>
     i \<le> j \<and> match_at rx t i = Some (j - i)"
proof (induction ms arbitrary: rx)
  case Nil
  then show ?case by simp
next
  case (Cons x ms)
  from Cons.prems(1) obtain m rx' where e: "exec rx t = (Some m, rx')"
    and x: "x = (index m, lastIndex rx')" and rest: "all_matches rx' t = Some ms"
    by (auto simp: all_matches_Cons_iff)
  from exec_SomeD[OF e Cons.prems(2)]
  have b: "index m \<le> lastIndex rx'" and rx': "rx' = rx\<lparr>lastIndex := lastIndex rx'\<rparr>"
    and ma: "match_at rx t (index m) = Some (lastIndex rx' - index m)" by auto
  show ?case
  proof (cases "(i, j) = x")
    case True
    with x b ma show ?thesis by simp
  next
    case False
    with Cons.prems(3) have mem: "(i, j) \<in> set ms" by auto
    have g': "global rx'" using exec_global[OF e] Cons.prems(2) by simp
    have "match_at rx' t i = match_at rx t i" by (subst rx') simp
    with Cons.IH[OF rest g' mem] show ?thesis by simp
  qed
qed

lemma reached_if_no_overlap:
  assumes "global rx" "\<forall>k<p. \<forall>n. match_at rx t k = Some n \<longrightarrow> k + n \<le> p"
  shows "reached rx t p"
  unfolding reached_iff
proof (intro allI impI ballI, clarify)
  fix ms i j assume ms: "all_matches rx t = Some ms" and mem: "(i, j) \<in> set ms"
    and c: "i < p" "p < j"
  from all_matches_match_at[OF ms assms(1) mem] have "i \<le> j" "match_at rx t i = Some (j - i)" by auto
  with assms(2) c(1) have "i + (j - i) \<le> p" by blast
  with \<open>i \<le> j\<close> c(2) show False by simp
qed

text \<open>
  One pass, and the scan of a text node, at an occurrence of a name of the list of the pass.
\<close>

lemma pass_highlights:
  assumes wf: "\<forall>x\<in>set l. well_formed x"
    and g: "CHR ''g'' \<in> set flags"
    and maps: "if CHR ''i'' \<in> set flags then \<not> cs \<and> anchorMapCI env = build_anchorMapCI l
               else cs \<and> anchorMapCS env = build_anchorMapCS (Some l)"
    and e: "e \<in> set l" and occ: "occurs (CHR ''i'' \<in> set flags) (name e) w"
    and nc: "reached (compiled l flags) (pre @ w @ post) (length pre)"
  shows "\<exists>A B x e'. spec_apply env (pre @ w @ post) (compiled l flags) cs
                       = Some (True, A @ createHighlight (w @ x) (anchor e') # B)
           \<and> concat (map textContent A) = pre \<and> x @ concat (map textContent B) = post
           \<and> e' \<in> set l \<and> length (name e) \<le> length (name e')
           \<and> occurs (CHR ''i'' \<in> set flags) (name e') (w @ x)"
proof -
  let ?ic = "CHR ''i'' \<in> set flags"
  let ?rx = "compiled l flags"
  let ?t = "pre @ w @ post"
  let ?p = "length pre"
  have gl: "global ?rx" and li: "lastIndex ?rx = 0" using g by simp_all
  have "[] \<notin> set (alts ?rx)" using wf e by (auto simp: empty_alt_iff well_formed_def)
  from all_matches_terminates[OF gl this] obtain ms where ms: "all_matches ?rx ?t = Some ms" by blast
  have dr: "drop ?p ?t = w @ post" by simp
  have "match_items ?ic (compile (name e)) (drop ?p ?t) \<noteq> None"
    using occurs_match[OF occ, of post] by simp
  from longest_first_match_at[OF e this] obtain e1 n where
    e1: "e1 \<in> set l" "length (name e) \<le> length (name e1)"
    and mi: "match_items ?ic (compile (name e1)) (drop ?p ?t) = Some n"
    and ma: "match_at ?rx ?t ?p = Some n" by blast
  from nc ms have "\<forall>(i, j)\<in>set ms. \<not> (i < ?p \<and> ?p < j)" unfolding reached_iff by blast
  from found_if_not_covered[OF ms gl _ _ ma this] have mem: "(?p, ?p + n) \<in> set ms"
    by (simp add: li)
  define m where "m = take n (w @ post)"
  have sl: "slice ?t ?p (?p + n) = m" by (simp add: slice_def m_def)
  have om: "occurs ?ic (name e1) m" using match_occurs[OF mi] by (simp add: m_def)
  from wf e1(1) have w1: "collapse_ws (name e1) = name e1" "trim (name e1) = name e1"
    by (auto simp: well_formed_def)
  note key = occurs_key[OF om w1]
  have "\<exists>e'\<in>set l. lookupAnchor env m cs = Some (anchor e') \<and> length (name e') = length (name e1)
           \<and> occurs ?ic (name e') m"
  proof (cases ?ic)
    case True
    with maps have cs: "\<not> cs" and mp: "anchorMapCI env = build_anchorMapCI l" by auto
    from key True have k: "toLowerCase (trim (collapse_ws m)) = toLowerCase (name e1)" by simp
    from anchorMapCI_dom[OF e1(1)] obtain e2 where e2: "e2 \<in> set l"
      "toLowerCase (name e2) = toLowerCase (name e1)"
      "build_anchorMapCI l (toLowerCase (name e1)) = Some (anchor e2)" by blast
    have "length (name e2) = length (name e1)" using e2(2) by (metis length_map toLowerCase_def)
    moreover have "occurs True (name e2) m" using occurs_lower_cong[OF e2(2)] om True by simp
    moreover have "lookupAnchor env m cs = Some (anchor e2)"
      using cs mp k e2(3) by (simp add: lookupAnchor_def Let_def)
    ultimately show ?thesis using e2(1) True by auto
  next
    case False
    with maps have cs: "cs" and mp: "anchorMapCS env = build_anchorMapCS (Some l)" by auto
    from key False have k: "trim (collapse_ws m) = name e1" by simp
    from anchorMapCS_dom[OF e1(1)] obtain e2 where e2: "e2 \<in> set l" "name e2 = name e1"
      "build_anchorMapCS (Some l) (name e1) = Some (anchor e2)" by blast
    have "lookupAnchor env m cs = Some (anchor e2)"
      using cs mp k e2(3) by (simp add: lookupAnchor_def Let_def)
    with e2 om show ?thesis by auto
  qed
  then obtain e2 where e2: "e2 \<in> set l" "lookupAnchor env m cs = Some (anchor e2)"
    "length (name e2) = length (name e1)" "occurs ?ic (name e2) m" by blast
  from wf e2(1) have an: "anchor e2 \<noteq> []" by (auto simp: well_formed_def)
  have ms0: "all_matches (?rx\<lparr>lastIndex := 0\<rparr>) ?t = Some ms" using ms li by simp
  have la: "lookupAnchor env (slice ?t ?p (?p + n)) cs = Some (anchor e2)" using e2(2) sl by simp
  from spec_apply_highlights[OF gl ms0 mem la an] obtain A B where
    s: "spec_apply env ?t ?rx cs = Some (True, A @ createHighlight m (anchor e2) # B)"
    and A: "concat (map textContent A) = take ?p ?t"
    and B: "concat (map textContent B) = drop (?p + n) ?t"
    unfolding sl by blast
  have "drop (?p + n) ?t = drop n (drop ?p ?t)" by (simp only: drop_drop add.commute)
  then have B': "concat (map textContent B) = drop n (w @ post)" using B by (simp only: dr)
  from wf e have we: "collapse_ws (name e) = name e" "trim (name e) = name e" "name e \<noteq> []"
    by (auto simp: well_formed_def)
  have cov: "length w \<le> n"
    using occurs_covers[OF om[unfolded m_def] occ w1(1) we e1(2)] .
  define x where "x = take (n - length w) post"
  have mx: "m = w @ x" unfolding m_def x_def using cov by simp
  have xB: "x @ concat (map textContent B) = post" unfolding B' x_def using cov by simp
  have s': "spec_apply env ?t ?rx cs = Some (True, A @ createHighlight (w @ x) (anchor e2) # B)"
    using s by (simp only: mx)
  have o2: "occurs ?ic (name e2) (w @ x)" using e2(4) by (simp only: mx)
  have A': "concat (map textContent A) = pre" using A by simp
  have le2: "length (name e) \<le> length (name e2)" using e1(2) e2(3) by simp
  from s' A' xB e2(1) le2 o2 show ?thesis by blast
qed

lemma scan_highlights_main:
  assumes i: "init L CS = Some env"
    and wf: "\<forall>x\<in>set L. well_formed x"
    and e: "e \<in> set L" and occ: "occurs True (name e) w"
    and nc: "reached (mainPattern env) (pre @ w @ post) (length pre)"
  shows "\<exists>A B x e'. scan_text L CS (pre @ w @ post) = Some (A @ createHighlight (w @ x) (anchor e') # B)
           \<and> concat (map textContent A) = pre \<and> x @ concat (map textContent B) = post
           \<and> e' \<in> set L \<and> length (name e) \<le> length (name e')
           \<and> occurs True (name e') (w @ x)"
proof -
  note d = init_SomeD[OF i]
  have maps: "if CHR ''i'' \<in> set ''gi'' then \<not> False \<and> anchorMapCI env = build_anchorMapCI L
               else False \<and> anchorMapCS env = build_anchorMapCS (Some L)"
    using d(3) by simp
  have occ': "occurs (CHR ''i'' \<in> set ''gi'') (name e) w" using occ by simp
  have nc': "reached (compiled L ''gi'') (pre @ w @ post) (length pre)"
    using nc by (simp only: d(1))
  from pass_highlights[OF wf _ maps e occ' nc'] obtain A B x e' where
    s: "spec_apply env (pre @ w @ post) (mainPattern env) False = Some (True, A @ createHighlight (w @ x) (anchor e') # B)"
    and r: "concat (map textContent A) = pre" "x @ concat (map textContent B) = post"
      "e' \<in> set L" "length (name e) \<le> length (name e')" "occurs True (name e') (w @ x)"
    unfolding d(1) by auto
  have "scan_text L CS (pre @ w @ post) = Some (A @ createHighlight (w @ x) (anchor e') # B)"
    using i s by (simp add: scan_text_def highlightTextNode_spec[OF i])
  with r show ?thesis by blast
qed

lemma scan_highlights_cs:
  assumes i: "init L (Some es) = Some env"
    and wf: "\<forall>x\<in>set es. well_formed x"
    and e: "e \<in> set es" and occ: "occurs False (name e) w"
    and quiet: "applyPattern env (pre @ w @ post) (mainPattern env) False = Some (False, ns, rx')"
    and cs: "csPattern env = Some csP"
    and nc: "reached csP (pre @ w @ post) (length pre)"
  shows "\<exists>A B x e'. scan_text L (Some es) (pre @ w @ post) = Some (A @ createHighlight (w @ x) (anchor e') # B)
           \<and> concat (map textContent A) = pre \<and> x @ concat (map textContent B) = post
           \<and> e' \<in> set es \<and> length (name e) \<le> length (name e')
           \<and> occurs False (name e') (w @ x)"
proof -
  note d = init_SomeD[OF i]
  from e have ne: "es \<noteq> []" by auto
  have csP: "csPattern env = Some (compiled es ''g'')"
    using i ne unfolding init_eq by auto
  have maps: "if CHR ''i'' \<in> set ''g'' then \<not> True \<and> anchorMapCI env = build_anchorMapCI es
               else True \<and> anchorMapCS env = build_anchorMapCS (Some es)"
    using d(4) by simp
  have occ': "occurs (CHR ''i'' \<in> set ''g'') (name e) w" using occ by simp
  have nc': "reached (compiled es ''g'') (pre @ w @ post) (length pre)"
    using nc cs csP by simp
  from pass_highlights[OF wf _ maps e occ' nc'] obtain A B x e' where
    s: "spec_apply env (pre @ w @ post) (compiled es ''g'') True = Some (True, A @ createHighlight (w @ x) (anchor e') # B)"
    and r: "concat (map textContent A) = pre" "x @ concat (map textContent B) = post"
      "e' \<in> set es" "length (name e) \<le> length (name e')" "occurs False (name e') (w @ x)"
    by auto
  from quiet have q: "spec_apply env (pre @ w @ post) (mainPattern env) False = Some (False, ns)"
    using init_patterns_ready(1)[OF i] by (auto simp: applyPattern_spec)
  have "scan_text L (Some es) (pre @ w @ post) = Some (A @ createHighlight (w @ x) (anchor e') # B)"
    using i s q csP by (simp add: scan_text_def highlightTextNode_spec[OF i])
  with r show ?thesis by blast
qed

lemma scan_main_only:
  assumes i: "init L CS = Some env"
    and r: "applyPattern env t (mainPattern env) False = Some (True, ns, rx')"
  shows "scan_text L CS t = Some ns"
    and "n \<in> set ns \<Longrightarrow> is_marker n \<Longrightarrow>
           \<exists>e\<in>set L. toLowerCase (trim (collapse_ws (textContent n))) = toLowerCase (name e)"
proof -
  from r have s: "spec_apply env t (mainPattern env) False = Some (True, ns)"
    using init_patterns_ready(1)[OF i] by (auto simp: applyPattern_spec)
  show "scan_text L CS t = Some ns"
    using i s by (simp add: scan_text_def highlightTextNode_spec[OF i])
  assume n: "n \<in> set ns" "is_marker n"
  from spec_apply_markers[OF s n] obtain a where
    "lookupAnchor env (textContent n) False = Some a" by blast
  then have "build_anchorMapCI L (toLowerCase (trim (collapse_ws (textContent n)))) = Some a"
    using init_SomeD(3)[OF i] by (auto simp: lookupAnchor_def Let_def)
  from anchorMapCI_Some[OF this]
  show "\<exists>e\<in>set L. toLowerCase (trim (collapse_ws (textContent n))) = toLowerCase (name e)"
    by metis
qed

subsection \<open>A text node in its place\<close>






section \<open>The claims\<close>

text \<open>
  Claim C1, as amended. In the pattern every entry stands before every entry with a
  shorter name, and the match at a position is taken by the first alternative that
  matches there. So for a list of well-formed entries, every text and every place of the
  text at which the name of an entry \<open>e\<close> of the list stands (in a form \<open>w\<close> that the
  pattern allows: one or more white-space characters for a space and, for the main list,
  any casing) and which the scan reaches (no match that the scan finds begins before the
  beginning of \<open>w\<close> and ends behind it): the scan returns, and one of the nodes it
  produces is a marker that begins where \<open>w\<close> begins and contains all of \<open>w\<close>; the
  nodes before it carry the text before \<open>w\<close>, the nodes behind it the rest of the text;
  the text of the marker is an occurrence of the name of an entry \<open>e'\<close> of the list
  whose name is at least as long as that of \<open>e\<close>, and the marker has the anchor of
  \<open>e'\<close>. So \<open>w\<close> is highlighted once, as a whole, and no shorter name, such as a proper
  prefix of \<open>e\<close>, is highlighted in its place. This holds for the main list in every
  scan, and for the case-sensitive list on a text node that the pass of the main pattern
  did not replace. In particular the list \<open>Bill Clinton\<close>, \<open>Bill\<close> and the text
  \<open>Bill Clinton visited.\<close> give the single marker \<open>Bill Clinton\<close> with its own
  anchor.
\<close>

theorem longest_match_precedence:
  assumes "init EPSTEIN_LIST EPSTEIN_LIST_CASE_SENSITIVE = Some env"
  shows "((\<forall>x\<in>set EPSTEIN_LIST. well_formed x) \<and> e \<in> set EPSTEIN_LIST \<and> occurs True (name e) w
            \<and> reached (mainPattern env) (pre @ w @ post) (length pre) \<longrightarrow>
          (\<exists>A B x e'. scan_text EPSTEIN_LIST EPSTEIN_LIST_CASE_SENSITIVE (pre @ w @ post)
                         = Some (A @ createHighlight (w @ x) (anchor e') # B)
             \<and> concat (map textContent A) = pre \<and> x @ concat (map textContent B) = post
             \<and> e' \<in> set EPSTEIN_LIST \<and> length (name e) \<le> length (name e')
             \<and> occurs True (name e') (w @ x)))
       \<and> (EPSTEIN_LIST_CASE_SENSITIVE = Some es \<and> (\<forall>x\<in>set es. well_formed x) \<and> c \<in> set es
            \<and> occurs False (name c) w
            \<and> applyPattern env (pre @ w @ post) (mainPattern env) False = Some (False, ns, rx')
            \<and> csPattern env = Some csP \<and> reached csP (pre @ w @ post) (length pre) \<longrightarrow>
          (\<exists>A B x c'. scan_text EPSTEIN_LIST EPSTEIN_LIST_CASE_SENSITIVE (pre @ w @ post)
                         = Some (A @ createHighlight (w @ x) (anchor c') # B)
             \<and> concat (map textContent A) = pre \<and> x @ concat (map textContent B) = post
             \<and> c' \<in> set es \<and> length (name c) \<le> length (name c')
             \<and> occurs False (name c') (w @ x)))
       \<and> scan_text [\<lparr>name = ''Bill Clinton'', anchor = ''Bill_Clinton''\<rparr>, \<lparr>name = ''Bill'', anchor = ''Bill_X''\<rparr>]
            None ''Bill Clinton visited.''
           = Some [createHighlight ''Bill Clinton'' ''Bill_Clinton'', TextNode '' visited.'']"
proof (intro conjI impI)
  assume "(\<forall>x\<in>set EPSTEIN_LIST. well_formed x) \<and> e \<in> set EPSTEIN_LIST \<and> occurs True (name e) w
            \<and> reached (mainPattern env) (pre @ w @ post) (length pre)"
  then show "\<exists>A B x e'. scan_text EPSTEIN_LIST EPSTEIN_LIST_CASE_SENSITIVE (pre @ w @ post)
                         = Some (A @ createHighlight (w @ x) (anchor e') # B)
             \<and> concat (map textContent A) = pre \<and> x @ concat (map textContent B) = post
             \<and> e' \<in> set EPSTEIN_LIST \<and> length (name e) \<le> length (name e')
             \<and> occurs True (name e') (w @ x)"
    using scan_highlights_main[OF assms, of e w pre post] by blast
next
  assume a: "EPSTEIN_LIST_CASE_SENSITIVE = Some es \<and> (\<forall>x\<in>set es. well_formed x) \<and> c \<in> set es
            \<and> occurs False (name c) w
            \<and> applyPattern env (pre @ w @ post) (mainPattern env) False = Some (False, ns, rx')
            \<and> csPattern env = Some csP \<and> reached csP (pre @ w @ post) (length pre)"
  then have i: "init EPSTEIN_LIST (Some es) = Some env" using assms by simp
  from a scan_highlights_cs[OF i, of c w pre post ns rx' csP]
  show "\<exists>A B x c'. scan_text EPSTEIN_LIST EPSTEIN_LIST_CASE_SENSITIVE (pre @ w @ post)
                         = Some (A @ createHighlight (w @ x) (anchor c') # B)
             \<and> concat (map textContent A) = pre \<and> x @ concat (map textContent B) = post
             \<and> c' \<in> set es \<and> length (name c) \<le> length (name c')
             \<and> occurs False (name c') (w @ x)"
    by simp
next
  show "scan_text [\<lparr>name = ''Bill Clinton'', anchor = ''Bill_Clinton''\<rparr>, \<lparr>name = ''Bill'', anchor = ''Bill_X''\<rparr>]
            None ''Bill Clinton visited.''
           = Some [createHighlight ''Bill Clinton'' ''Bill_Clinton'', TextNode '' visited.'']"
    by code_simp
qed

text \<open>
  Witness for C1: in both lists the shorter name comes first; the longer name of the main
  list stands in the middle of the text, behind an earlier match, in other casing and
  with a line break and a space for its space; the longer name of the case-sensitive list
  stands with two spaces in a text node in which the main pattern finds nothing.
\<close>

theorem longest_match_precedence_witness:
  "init [\<lparr>name = ''Bill'', anchor = ''Bill_X''\<rparr>, \<lparr>name = ''Bill Clinton'', anchor = ''Bill_Clinton''\<rparr>]
        (Some [\<lparr>name = ''Trump'', anchor = ''Donald_Trump''\<rparr>, \<lparr>name = ''Trump Tower'', anchor = ''Trump_Tower''\<rparr>])
     = Some \<lparr>mainPattern = compiled [\<lparr>name = ''Bill'', anchor = ''Bill_X''\<rparr>, \<lparr>name = ''Bill Clinton'', anchor = ''Bill_Clinton''\<rparr>] ''gi'',
             csPattern = Some (compiled [\<lparr>name = ''Trump'', anchor = ''Donald_Trump''\<rparr>, \<lparr>name = ''Trump Tower'', anchor = ''Trump_Tower''\<rparr>] ''g''),
             anchorMapCI = build_anchorMapCI [\<lparr>name = ''Bill'', anchor = ''Bill_X''\<rparr>, \<lparr>name = ''Bill Clinton'', anchor = ''Bill_Clinton''\<rparr>],
             anchorMapCS = build_anchorMapCS (Some [\<lparr>name = ''Trump'', anchor = ''Donald_Trump''\<rparr>, \<lparr>name = ''Trump Tower'', anchor = ''Trump_Tower''\<rparr>])\<rparr>
   \<and> well_formed \<lparr>name = ''Bill'', anchor = ''Bill_X''\<rparr>
   \<and> well_formed \<lparr>name = ''Bill Clinton'', anchor = ''Bill_Clinton''\<rparr>
   \<and> occurs True ''Bill Clinton'' (''BILL'' @ [CHR 0x0A] @ '' clinton'')
   \<and> reached (compiled [\<lparr>name = ''Bill'', anchor = ''Bill_X''\<rparr>, \<lparr>name = ''Bill Clinton'', anchor = ''Bill_Clinton''\<rparr>] ''gi'')
        (''bill met '' @ (''BILL'' @ [CHR 0x0A] @ '' clinton'') @ ''.'') (length ''bill met '')
   \<and> (\<exists>A B x e'.
         scan_text [\<lparr>name = ''Bill'', anchor = ''Bill_X''\<rparr>, \<lparr>name = ''Bill Clinton'', anchor = ''Bill_Clinton''\<rparr>]
            (Some [\<lparr>name = ''Trump'', anchor = ''Donald_Trump''\<rparr>, \<lparr>name = ''Trump Tower'', anchor = ''Trump_Tower''\<rparr>])
            (''bill met '' @ (''BILL'' @ [CHR 0x0A] @ '' clinton'') @ ''.'')
           = Some (A @ createHighlight ((''BILL'' @ [CHR 0x0A] @ '' clinton'') @ x) (anchor e') # B)
         \<and> concat (map textContent A) = ''bill met ''
         \<and> x @ concat (map textContent B) = ''.''
         \<and> e' \<in> set [\<lparr>name = ''Bill'', anchor = ''Bill_X''\<rparr>, \<lparr>name = ''Bill Clinton'', anchor = ''Bill_Clinton''\<rparr>]
         \<and> length ''Bill Clinton'' \<le> length (name e') \<and> occurs True (name e') ((''BILL'' @ [CHR 0x0A] @ '' clinton'') @ x))
   \<and> well_formed \<lparr>name = ''Trump'', anchor = ''Donald_Trump''\<rparr>
   \<and> well_formed \<lparr>name = ''Trump Tower'', anchor = ''Trump_Tower''\<rparr>
   \<and> occurs False ''Trump Tower'' ''Trump  Tower''
   \<and> reached (compiled [\<lparr>name = ''Trump'', anchor = ''Donald_Trump''\<rparr>, \<lparr>name = ''Trump Tower'', anchor = ''Trump_Tower''\<rparr>] ''g'')
        (''At '' @ ''Trump  Tower'' @ '' today'') (length ''At '')
   \<and> (\<exists>A B x c'.
         scan_text [\<lparr>name = ''Bill'', anchor = ''Bill_X''\<rparr>, \<lparr>name = ''Bill Clinton'', anchor = ''Bill_Clinton''\<rparr>]
            (Some [\<lparr>name = ''Trump'', anchor = ''Donald_Trump''\<rparr>, \<lparr>name = ''Trump Tower'', anchor = ''Trump_Tower''\<rparr>])
            (''At '' @ ''Trump  Tower'' @ '' today'')
           = Some (A @ createHighlight (''Trump  Tower'' @ x) (anchor c') # B)
         \<and> concat (map textContent A) = ''At ''
         \<and> x @ concat (map textContent B) = '' today''
         \<and> c' \<in> set [\<lparr>name = ''Trump'', anchor = ''Donald_Trump''\<rparr>, \<lparr>name = ''Trump Tower'', anchor = ''Trump_Tower''\<rparr>]
         \<and> length ''Trump Tower'' \<le> length (name c') \<and> occurs False (name c') (''Trump  Tower'' @ x))"
proof -
  let ?b = "\<lparr>name = ''Bill'', anchor = ''Bill_X''\<rparr>"
  let ?bc = "\<lparr>name = ''Bill Clinton'', anchor = ''Bill_Clinton''\<rparr>"
  let ?t = "\<lparr>name = ''Trump'', anchor = ''Donald_Trump''\<rparr>"
  let ?tt = "\<lparr>name = ''Trump Tower'', anchor = ''Trump_Tower''\<rparr>"
  let ?L = "[?b, ?bc]"
  let ?es = "[?t, ?tt]"
  let ?env = "\<lparr>mainPattern = compiled ?L ''gi'', csPattern = Some (compiled ?es ''g''),
               anchorMapCI = build_anchorMapCI ?L, anchorMapCS = build_anchorMapCS (Some ?es)\<rparr>"
  let ?w1 = "''BILL'' @ [CHR 0x0A] @ '' clinton''"
  let ?t1 = "''bill met '' @ ?w1 @ ''.''"
  let ?t2 = "''At '' @ ''Trump  Tower'' @ '' today''"
  have i: "init ?L (Some ?es) = Some ?env" by (simp add: init_eq)
  have wb: "well_formed ?b" and wbc: "well_formed ?bc" and wt: "well_formed ?t" and wtt: "well_formed ?tt"
    by code_simp+
  have wfL: "\<forall>x\<in>set ?L. well_formed x" using wb wbc by simp
  have wfes: "\<forall>x\<in>set ?es. well_formed x" using wt wtt by simp
  have o1: "occurs True ''Bill Clinton'' ?w1" by code_simp
  have o2: "occurs False ''Trump Tower'' ''Trump  Tower''" by code_simp
  have r1: "reached (compiled ?L ''gi'') ?t1 (length ''bill met '')" by code_simp
  have r2: "reached (compiled ?es ''g'') ?t2 (length ''At '')" by code_simp
  have q: "applyPattern ?env ?t2 (mainPattern ?env) False = Some (False, [TextNode ?t2], compiled ?L ''gi'')"
    by code_simp
  have h1: "(\<forall>x\<in>set ?L. well_formed x) \<and> ?bc \<in> set ?L \<and> occurs True (name ?bc) ?w1
            \<and> reached (mainPattern ?env) (''bill met '' @ ?w1 @ ''.'') (length ''bill met '')"
    using wfL o1 r1 by simp
  have h2: "Some ?es = Some ?es \<and> (\<forall>x\<in>set ?es. well_formed x) \<and> ?tt \<in> set ?es
            \<and> occurs False (name ?tt) ''Trump  Tower''
            \<and> applyPattern ?env (''At '' @ ''Trump  Tower'' @ '' today'') (mainPattern ?env) False
                = Some (False, [TextNode ?t2], compiled ?L ''gi'')
            \<and> csPattern ?env = Some (compiled ?es ''g'')
            \<and> reached (compiled ?es ''g'') (''At '' @ ''Trump  Tower'' @ '' today'') (length ''At '')"
    using wfes o2 r2 q by simp
  note m = longest_match_precedence[OF i, THEN conjunct1, rule_format, OF h1]
  note c = longest_match_precedence[OF i, THEN conjunct2, THEN conjunct1, rule_format, OF h2]
  from i wb wbc o1 r1 m wt wtt o2 r2 c show ?thesis by simp
qed

text \<open>
  Counterexamples to C1 as stated. \<open>Clinton\<close> is a substring of the longer
  \<open>Bill Clinton\<close>, the text contains the longer form, yet the scan highlights the
  shorter name and not the longer one, because the match of a third entry ends inside
  the longer form. With two entries, the shorter a prefix of the longer: the match
  of the shorter name ends inside the longer form, which is not highlighted. An entry
  whose name has two spaces, or whose anchor is empty, is matched and never resolved, so
  neither it nor its prefix is highlighted. And the names of the case-sensitive list are
  not highlighted at all in a text node in which a name of the main list is.
\<close>

theorem longest_match_counterexample:
  "scan_text [\<lparr>name = ''Bill Clinton'', anchor = ''Bill_Clinton''\<rparr>, \<lparr>name = ''Clinton'', anchor = ''Clinton_X''\<rparr>,
              \<lparr>name = ''Mr Bill'', anchor = ''Mr_Bill''\<rparr>]
     None ''Mr Bill Clinton visited.''
   = Some [createHighlight ''Mr Bill'' ''Mr_Bill'', TextNode '' '',
           createHighlight ''Clinton'' ''Clinton_X'', TextNode '' visited.'']
   \<and> scan_text [\<lparr>name = ''JJ Abrams'', anchor = ''JJ_Abrams''\<rparr>, \<lparr>name = ''JJ'', anchor = ''JJ_X''\<rparr>]
     None ''JJJ Abrams''
   = Some [createHighlight ''JJ'' ''JJ_X'', TextNode ''J Abrams'']
   \<and> scan_text [\<lparr>name = ''Bill  Clinton'', anchor = ''Bill_Clinton''\<rparr>, \<lparr>name = ''Bill'', anchor = ''Bill_X''\<rparr>]
     None ''Bill  Clinton visited.''
   = Some [TextNode ''Bill  Clinton visited.'']
   \<and> scan_text [\<lparr>name = ''Bill Clinton'', anchor = []\<rparr>, \<lparr>name = ''Bill'', anchor = ''Bill_X''\<rparr>]
     None ''Bill Clinton visited.''
   = Some [TextNode ''Bill Clinton visited.'']
   \<and> scan_text [\<lparr>name = ''Bill'', anchor = ''Bill_X''\<rparr>]
     (Some [\<lparr>name = ''Trump Tower'', anchor = ''Trump_Tower''\<rparr>, \<lparr>name = ''Trump'', anchor = ''Donald_Trump''\<rparr>])
     ''Bill at Trump Tower''
   = Some [createHighlight ''Bill'' ''Bill_X'', TextNode '' at Trump Tower'']"
  by code_simp




text \<open>
  Claim C3 (lookup-miss atomicity). For an expression as the script builds it (global,
  \<^verbatim>\<open>lastIndex\<close> 0) \<^verbatim>\<open>applyPattern\<close> is \<open>spec_apply\<close>: the matches are found one after the
  other, each search starting where the previous match ended, whether or not the previous
  match resolved; only the matches whose lookup gives a non-empty anchor become markers
  and set \<^verbatim>\<open>didMatch\<close>; the text of the other matches stays in the plain text between the
  markers; and when no match resolves the result is \<open>False\<close> with the text node as it
  was. The expression is left with \<^verbatim>\<open>lastIndex\<close> 0. Both sides are \<open>None\<close> together, when
  the loop does not end.
\<close>

theorem lookup_miss_atomicity:
  assumes "global regex" and "lastIndex regex = 0"
  shows "applyPattern env text regex caseSensitive
           = map_option (\<lambda>(replaced, nodes). (replaced, nodes, regex))
               (spec_apply env text regex caseSensitive)"
  using assms by (rule applyPattern_spec)

text \<open>
  Witness for C3: the name with two spaces matches the text but its lookup misses (the key
  in the map has two spaces, the normalised match one), so its text stays plain and the
  later match of \<open>Bill\<close> is the only marker.
\<close>

theorem lookup_miss_atomicity_witness:
  "global (compiled [\<lparr>name = ''Bill  Clinton'', anchor = ''Bill_Clinton''\<rparr>, \<lparr>name = ''Bill'', anchor = ''Bill_X''\<rparr>] ''gi'')
   \<and> lastIndex (compiled [\<lparr>name = ''Bill  Clinton'', anchor = ''Bill_Clinton''\<rparr>, \<lparr>name = ''Bill'', anchor = ''Bill_X''\<rparr>] ''gi'') = 0
   \<and> spec_apply
        \<lparr>mainPattern = compiled [\<lparr>name = ''Bill  Clinton'', anchor = ''Bill_Clinton''\<rparr>, \<lparr>name = ''Bill'', anchor = ''Bill_X''\<rparr>] ''gi'',
         csPattern = None,
         anchorMapCI = build_anchorMapCI [\<lparr>name = ''Bill  Clinton'', anchor = ''Bill_Clinton''\<rparr>, \<lparr>name = ''Bill'', anchor = ''Bill_X''\<rparr>],
         anchorMapCS = Map.empty\<rparr>
        ''Bill  Clinton and Bill''
        (compiled [\<lparr>name = ''Bill  Clinton'', anchor = ''Bill_Clinton''\<rparr>, \<lparr>name = ''Bill'', anchor = ''Bill_X''\<rparr>] ''gi'')
        False
      = Some (True, [TextNode ''Bill  Clinton and '', createHighlight ''Bill'' ''Bill_X''])"
proof -
  let ?l = "[\<lparr>name = ''Bill  Clinton'', anchor = ''Bill_Clinton''\<rparr>, \<lparr>name = ''Bill'', anchor = ''Bill_X''\<rparr>]"
  let ?rx = "compiled ?l ''gi''"
  let ?env = "\<lparr>mainPattern = ?rx, csPattern = None, anchorMapCI = build_anchorMapCI ?l, anchorMapCS = Map.empty\<rparr>"
  have g: "global ?rx" and z: "lastIndex ?rx = 0" by simp_all
  have v: "applyPattern ?env ''Bill  Clinton and Bill'' ?rx False
        = Some (True, [TextNode ''Bill  Clinton and '', createHighlight ''Bill'' ''Bill_X''], ?rx)"
    by code_simp
  from lookup_miss_atomicity[OF g z, of ?env "''Bill  Clinton and Bill''" False] v
  have "spec_apply ?env ''Bill  Clinton and Bill'' ?rx False
        = Some (True, [TextNode ''Bill  Clinton and '', createHighlight ''Bill'' ''Bill_X''])"
    by (cases "spec_apply ?env ''Bill  Clinton and Bill'' ?rx False") auto
  with g z show ?thesis by blast
qed

text \<open>
  Claim C4 (text-content preservation). Whatever the scan of a text node puts in its place,
  the texts of the plain-text nodes and of the markers, concatenated in order, are the
  original text; a marker carries the characters of the document, not the name of the
  dataset.
\<close>

theorem text_content_preserved:
  assumes "scan_text EPSTEIN_LIST EPSTEIN_LIST_CASE_SENSITIVE text = Some nodes"
  shows "concat (map textContent nodes) = text"
proof -
  from assms obtain env where "init EPSTEIN_LIST EPSTEIN_LIST_CASE_SENSITIVE = Some env"
    and "highlightTextNode env text = Some nodes"
    by (auto simp: scan_text_def split: option.splits)
  then show ?thesis by (rule highlightTextNode_text)
qed

text \<open>Witness for C4: a line break and two spaces inside the name, and other casing.\<close>

theorem text_content_preserved_witness:
  "scan_text [\<lparr>name = ''Bill Clinton'', anchor = ''Bill_Clinton''\<rparr>] None (''Hi bill'' @ [CHR 0x0A] @ ''  CLINTON!'')
     = Some [TextNode ''Hi '', createHighlight (''bill'' @ [CHR 0x0A] @ ''  CLINTON'') ''Bill_Clinton'', TextNode ''!'']
   \<and> concat (map textContent
         [TextNode ''Hi '', createHighlight (''bill'' @ [CHR 0x0A] @ ''  CLINTON'') ''Bill_Clinton'', TextNode ''!''])
       = ''Hi bill'' @ [CHR 0x0A] @ ''  CLINTON!''"
proof -
  have h: "scan_text [\<lparr>name = ''Bill Clinton'', anchor = ''Bill_Clinton''\<rparr>] None (''Hi bill'' @ [CHR 0x0A] @ ''  CLINTON!'')
     = Some [TextNode ''Hi '', createHighlight (''bill'' @ [CHR 0x0A] @ ''  CLINTON'') ''Bill_Clinton'', TextNode ''!'']"
    by code_simp
  from h text_content_preserved[OF h] show ?thesis by blast
qed

text \<open>
  Claim C5 (the partitions are mutually exclusive per segment). The result for a text node
  is the decomposition by the case-insensitive pattern when that pass resolved a match;
  otherwise it is what the case-sensitive pattern (if there is one) makes of the original
  text. The two are never combined.
\<close>

theorem partitions_mutually_exclusive:
  assumes "init EPSTEIN_LIST EPSTEIN_LIST_CASE_SENSITIVE = Some env"
  shows "highlightTextNode env text =
           (case spec_apply env text (mainPattern env) False of
              None \<Rightarrow> None
            | Some (replaced, nodes) \<Rightarrow>
                if replaced then Some nodes
                else (case csPattern env of
                        None \<Rightarrow> Some [TextNode text]
                      | Some csP \<Rightarrow> map_option snd (spec_apply env text csP True)))"
  using assms by (rule highlightTextNode_spec)

text \<open>Witness for C5: the case-insensitive pass resolves nothing, the case-sensitive one does.\<close>

theorem partitions_mutually_exclusive_witness:
  "init [\<lparr>name = ''Bill Clinton'', anchor = ''Bill_Clinton''\<rparr>] (Some [\<lparr>name = ''Trump'', anchor = ''Donald_Trump''\<rparr>])
     = Some \<lparr>mainPattern = compiled [\<lparr>name = ''Bill Clinton'', anchor = ''Bill_Clinton''\<rparr>] ''gi'',
             csPattern = Some (compiled [\<lparr>name = ''Trump'', anchor = ''Donald_Trump''\<rparr>] ''g''),
             anchorMapCI = build_anchorMapCI [\<lparr>name = ''Bill Clinton'', anchor = ''Bill_Clinton''\<rparr>],
             anchorMapCS = build_anchorMapCS (Some [\<lparr>name = ''Trump'', anchor = ''Donald_Trump''\<rparr>])\<rparr>
   \<and> highlightTextNode
         \<lparr>mainPattern = compiled [\<lparr>name = ''Bill Clinton'', anchor = ''Bill_Clinton''\<rparr>] ''gi'',
          csPattern = Some (compiled [\<lparr>name = ''Trump'', anchor = ''Donald_Trump''\<rparr>] ''g''),
          anchorMapCI = build_anchorMapCI [\<lparr>name = ''Bill Clinton'', anchor = ''Bill_Clinton''\<rparr>],
          anchorMapCS = build_anchorMapCS (Some [\<lparr>name = ''Trump'', anchor = ''Donald_Trump''\<rparr>])\<rparr>
         ''He met Trump''
       = Some [TextNode ''He met '', createHighlight ''Trump'' ''Donald_Trump'']"
proof -
  let ?l = "[\<lparr>name = ''Bill Clinton'', anchor = ''Bill_Clinton''\<rparr>]"
  let ?c = "[\<lparr>name = ''Trump'', anchor = ''Donald_Trump''\<rparr>]"
  let ?env = "\<lparr>mainPattern = compiled ?l ''gi'', csPattern = Some (compiled ?c ''g''),
               anchorMapCI = build_anchorMapCI ?l, anchorMapCS = build_anchorMapCS (Some ?c)\<rparr>"
  have i: "init ?l (Some ?c) = Some ?env" by (simp add: init_eq)
  have a: "spec_apply ?env ''He met Trump'' (compiled ?l ''gi'') False = Some (False, [TextNode ''He met Trump''])"
    by code_simp
  have b: "spec_apply ?env ''He met Trump'' (compiled ?c ''g'') True
             = Some (True, [TextNode ''He met '', createHighlight ''Trump'' ''Donald_Trump''])"
    by code_simp
  from partitions_mutually_exclusive[OF i, of "''He met Trump''"] a b
  have "highlightTextNode ?env ''He met Trump''
          = Some [TextNode ''He met '', createHighlight ''Trump'' ''Donald_Trump'']"
    by simp
  with i show ?thesis by blast
qed

text \<open>
  Claim C6, as amended, in four parts. (1) Every marker that a scan produces carries a
  text that, with its white space collapsed and trimmed, is the name of a case-sensitive
  entry letter for letter, or the name of an entry of the main list up to the case of the
  letters; a name that is only in the case-sensitive list is therefore never highlighted
  in another casing. (2) With a main list of well-formed entries, a name of the main list
  is highlighted in any casing at every place where it stands and which the scan reaches:
  a marker of the main list begins there and contains the occurrence. (3) With a
  case-sensitive list of well-formed entries, a name of that list is highlighted in its
  exact casing at every place where it stands and which the pass of the case-sensitive
  pattern reaches, in every text node that the pass of the main pattern did not replace.
  (4) In a text node that the pass of the main pattern replaced, the result is that of
  this pass alone and every marker carries a name of the main list.
\<close>

theorem case_sensitivity_of_markers:
  assumes "init EPSTEIN_LIST EPSTEIN_LIST_CASE_SENSITIVE = Some env"
  shows "(scan_text EPSTEIN_LIST EPSTEIN_LIST_CASE_SENSITIVE text = Some nodes \<longrightarrow>
            (\<forall>n\<in>set nodes. is_marker n \<longrightarrow>
               (\<exists>e\<in>set EPSTEIN_LIST.
                   toLowerCase (trim (collapse_ws (textContent n))) = toLowerCase (name e))
               \<or> (\<exists>es. EPSTEIN_LIST_CASE_SENSITIVE = Some es
                       \<and> (\<exists>e\<in>set es. trim (collapse_ws (textContent n)) = name e))))
       \<and> ((\<forall>x\<in>set EPSTEIN_LIST. well_formed x) \<and> e \<in> set EPSTEIN_LIST \<and> occurs True (name e) w
            \<and> reached (mainPattern env) (pre @ w @ post) (length pre) \<longrightarrow>
          (\<exists>A B x e'. scan_text EPSTEIN_LIST EPSTEIN_LIST_CASE_SENSITIVE (pre @ w @ post)
                         = Some (A @ createHighlight (w @ x) (anchor e') # B)
             \<and> concat (map textContent A) = pre \<and> x @ concat (map textContent B) = post
             \<and> e' \<in> set EPSTEIN_LIST \<and> occurs True (name e') (w @ x)))
       \<and> (EPSTEIN_LIST_CASE_SENSITIVE = Some es \<and> (\<forall>x\<in>set es. well_formed x) \<and> c \<in> set es
            \<and> occurs False (name c) w
            \<and> applyPattern env (pre @ w @ post) (mainPattern env) False = Some (False, ns, rx')
            \<and> csPattern env = Some csP \<and> reached csP (pre @ w @ post) (length pre) \<longrightarrow>
          (\<exists>A B x c'. scan_text EPSTEIN_LIST EPSTEIN_LIST_CASE_SENSITIVE (pre @ w @ post)
                         = Some (A @ createHighlight (w @ x) (anchor c') # B)
             \<and> concat (map textContent A) = pre \<and> x @ concat (map textContent B) = post
             \<and> c' \<in> set es \<and> occurs False (name c') (w @ x)))
       \<and> (applyPattern env text (mainPattern env) False = Some (True, ns, rx') \<longrightarrow>
            scan_text EPSTEIN_LIST EPSTEIN_LIST_CASE_SENSITIVE text = Some ns
            \<and> (\<forall>n\<in>set ns. is_marker n \<longrightarrow>
                 (\<exists>e\<in>set EPSTEIN_LIST.
                     toLowerCase (trim (collapse_ws (textContent n))) = toLowerCase (name e))))"
proof (intro conjI impI ballI)
  fix n
  assume s: "scan_text EPSTEIN_LIST EPSTEIN_LIST_CASE_SENSITIVE text = Some nodes"
    and n: "n \<in> set nodes" "is_marker n"
  from s assms have h: "highlightTextNode env text = Some nodes"
    by (simp add: scan_text_def)
  from highlightTextNode_markers[OF assms h n]
  show "(\<exists>e\<in>set EPSTEIN_LIST.
             toLowerCase (trim (collapse_ws (textContent n))) = toLowerCase (name e))
         \<or> (\<exists>es. EPSTEIN_LIST_CASE_SENSITIVE = Some es
                 \<and> (\<exists>e\<in>set es. trim (collapse_ws (textContent n)) = name e))"
  proof
    assume "\<exists>a. lookupAnchor env (textContent n) False = Some a \<and> a \<noteq> []
               \<and> n = createHighlight (textContent n) a"
    then obtain a where "build_anchorMapCI EPSTEIN_LIST (toLowerCase (trim (collapse_ws (textContent n)))) = Some a"
      using init_SomeD(3)[OF assms] by (auto simp: lookupAnchor_def Let_def)
    from anchorMapCI_Some[OF this] show ?thesis by metis
  next
    assume "\<exists>a. lookupAnchor env (textContent n) True = Some a \<and> a \<noteq> []
               \<and> n = createHighlight (textContent n) a"
    then obtain a where "build_anchorMapCS EPSTEIN_LIST_CASE_SENSITIVE (trim (collapse_ws (textContent n))) = Some a"
      using init_SomeD(4)[OF assms] by (auto simp: lookupAnchor_def Let_def)
    from anchorMapCS_Some[OF this] show ?thesis by metis
  qed
next
  assume "(\<forall>x\<in>set EPSTEIN_LIST. well_formed x) \<and> e \<in> set EPSTEIN_LIST \<and> occurs True (name e) w
            \<and> reached (mainPattern env) (pre @ w @ post) (length pre)"
  then show "\<exists>A B x e'. scan_text EPSTEIN_LIST EPSTEIN_LIST_CASE_SENSITIVE (pre @ w @ post)
                         = Some (A @ createHighlight (w @ x) (anchor e') # B)
             \<and> concat (map textContent A) = pre \<and> x @ concat (map textContent B) = post
             \<and> e' \<in> set EPSTEIN_LIST \<and> occurs True (name e') (w @ x)"
    using scan_highlights_main[OF assms, of e w pre post] by blast
next
  assume a: "EPSTEIN_LIST_CASE_SENSITIVE = Some es \<and> (\<forall>x\<in>set es. well_formed x) \<and> c \<in> set es
            \<and> occurs False (name c) w
            \<and> applyPattern env (pre @ w @ post) (mainPattern env) False = Some (False, ns, rx')
            \<and> csPattern env = Some csP \<and> reached csP (pre @ w @ post) (length pre)"
  then have i: "init EPSTEIN_LIST (Some es) = Some env" using assms by simp
  from a scan_highlights_cs[OF i, of c w pre post ns rx' csP]
  show "\<exists>A B x c'. scan_text EPSTEIN_LIST EPSTEIN_LIST_CASE_SENSITIVE (pre @ w @ post)
                         = Some (A @ createHighlight (w @ x) (anchor c') # B)
             \<and> concat (map textContent A) = pre \<and> x @ concat (map textContent B) = post
             \<and> c' \<in> set es \<and> occurs False (name c') (w @ x)"
    by auto
next
  assume r: "applyPattern env text (mainPattern env) False = Some (True, ns, rx')"
  from scan_main_only(1)[OF assms r]
  show "scan_text EPSTEIN_LIST EPSTEIN_LIST_CASE_SENSITIVE text = Some ns" .
next
  fix n
  assume r: "applyPattern env text (mainPattern env) False = Some (True, ns, rx')"
    and n: "n \<in> set ns" "is_marker n"
  from scan_main_only(2)[OF assms r n]
  show "\<exists>e\<in>set EPSTEIN_LIST. toLowerCase (trim (collapse_ws (textContent n))) = toLowerCase (name e)" .
qed

text \<open>
  Witness for C6: \<open>Trump\<close> is highlighted in its exact casing and not as \<open>trump\<close>;
  \<open>Bill Clinton\<close> is highlighted in other casing with a line break for its space; and
  in the text node in which \<open>Bill Clinton\<close> was highlighted the result is that of the
  main pattern alone.
\<close>

theorem case_sensitivity_of_markers_witness:
  "init [\<lparr>name = ''Bill Clinton'', anchor = ''Bill_Clinton''\<rparr>] (Some [\<lparr>name = ''Trump'', anchor = ''Donald_Trump''\<rparr>])
     = Some \<lparr>mainPattern = compiled [\<lparr>name = ''Bill Clinton'', anchor = ''Bill_Clinton''\<rparr>] ''gi'',
             csPattern = Some (compiled [\<lparr>name = ''Trump'', anchor = ''Donald_Trump''\<rparr>] ''g''),
             anchorMapCI = build_anchorMapCI [\<lparr>name = ''Bill Clinton'', anchor = ''Bill_Clinton''\<rparr>],
             anchorMapCS = build_anchorMapCS (Some [\<lparr>name = ''Trump'', anchor = ''Donald_Trump''\<rparr>])\<rparr>
   \<and> scan_text [\<lparr>name = ''Bill Clinton'', anchor = ''Bill_Clinton''\<rparr>] (Some [\<lparr>name = ''Trump'', anchor = ''Donald_Trump''\<rparr>])
        ''trump met Trump''
       = Some [TextNode ''trump met '', createHighlight ''Trump'' ''Donald_Trump'']
   \<and> ((\<exists>e\<in>set [\<lparr>name = ''Bill Clinton'', anchor = ''Bill_Clinton''\<rparr>].
           toLowerCase (trim (collapse_ws (textContent (createHighlight ''Trump'' ''Donald_Trump'')))) = toLowerCase (name e))
       \<or> (\<exists>es. Some [\<lparr>name = ''Trump'', anchor = ''Donald_Trump''\<rparr>] = Some es
              \<and> (\<exists>e\<in>set es. trim (collapse_ws (textContent (createHighlight ''Trump'' ''Donald_Trump''))) = name e)))
   \<and> well_formed \<lparr>name = ''Bill Clinton'', anchor = ''Bill_Clinton''\<rparr>
   \<and> occurs True ''Bill Clinton'' (''bILL'' @ [CHR 0x0A] @ ''CLINTON'')
   \<and> reached (compiled [\<lparr>name = ''Bill Clinton'', anchor = ''Bill_Clinton''\<rparr>] ''gi'')
        (''He met '' @ (''bILL'' @ [CHR 0x0A] @ ''CLINTON'') @ '' and Trump.'') (length ''He met '')
   \<and> (\<exists>A B x e'.
         scan_text [\<lparr>name = ''Bill Clinton'', anchor = ''Bill_Clinton''\<rparr>] (Some [\<lparr>name = ''Trump'', anchor = ''Donald_Trump''\<rparr>])
            (''He met '' @ (''bILL'' @ [CHR 0x0A] @ ''CLINTON'') @ '' and Trump.'')
           = Some (A @ createHighlight ((''bILL'' @ [CHR 0x0A] @ ''CLINTON'') @ x) (anchor e') # B)
         \<and> concat (map textContent A) = ''He met ''
         \<and> x @ concat (map textContent B) = '' and Trump.''
         \<and> e' \<in> set [\<lparr>name = ''Bill Clinton'', anchor = ''Bill_Clinton''\<rparr>]
         \<and> occurs True (name e') ((''bILL'' @ [CHR 0x0A] @ ''CLINTON'') @ x))
   \<and> well_formed \<lparr>name = ''Trump'', anchor = ''Donald_Trump''\<rparr>
   \<and> occurs False ''Trump'' ''Trump''
   \<and> reached (compiled [\<lparr>name = ''Trump'', anchor = ''Donald_Trump''\<rparr>] ''g'')
        (''trump met '' @ ''Trump'' @ ''.'') (length ''trump met '')
   \<and> (\<exists>A B x c'.
         scan_text [\<lparr>name = ''Bill Clinton'', anchor = ''Bill_Clinton''\<rparr>] (Some [\<lparr>name = ''Trump'', anchor = ''Donald_Trump''\<rparr>])
            (''trump met '' @ ''Trump'' @ ''.'')
           = Some (A @ createHighlight (''Trump'' @ x) (anchor c') # B)
         \<and> concat (map textContent A) = ''trump met ''
         \<and> x @ concat (map textContent B) = ''.''
         \<and> c' \<in> set [\<lparr>name = ''Trump'', anchor = ''Donald_Trump''\<rparr>]
         \<and> occurs False (name c') (''Trump'' @ x))
   \<and> scan_text [\<lparr>name = ''Bill Clinton'', anchor = ''Bill_Clinton''\<rparr>] (Some [\<lparr>name = ''Trump'', anchor = ''Donald_Trump''\<rparr>])
        ''Bill Clinton met Trump''
       = Some [createHighlight ''Bill Clinton'' ''Bill_Clinton'', TextNode '' met Trump'']"
proof -
  let ?bc = "\<lparr>name = ''Bill Clinton'', anchor = ''Bill_Clinton''\<rparr>"
  let ?t = "\<lparr>name = ''Trump'', anchor = ''Donald_Trump''\<rparr>"
  let ?L = "[?bc]"
  let ?es = "[?t]"
  let ?env = "\<lparr>mainPattern = compiled ?L ''gi'', csPattern = Some (compiled ?es ''g''),
               anchorMapCI = build_anchorMapCI ?L, anchorMapCS = build_anchorMapCS (Some ?es)\<rparr>"
  let ?w1 = "''bILL'' @ [CHR 0x0A] @ ''CLINTON''"
  let ?t1 = "''He met '' @ ?w1 @ '' and Trump.''"
  let ?t2 = "''trump met '' @ ''Trump'' @ ''.''"
  have i: "init ?L (Some ?es) = Some ?env" by (simp add: init_eq)
  note th = case_sensitivity_of_markers[OF i]
  have s: "scan_text ?L (Some ?es) ''trump met Trump''
     = Some [TextNode ''trump met '', createHighlight ''Trump'' ''Donald_Trump'']"
    by code_simp
  have n: "createHighlight ''Trump'' ''Donald_Trump'' \<in> set [TextNode ''trump met '', createHighlight ''Trump'' ''Donald_Trump'']"
    by simp
  note a = th[THEN conjunct1, rule_format, OF s n is_marker_createHighlight]
  have wbc: "well_formed ?bc" and wt: "well_formed ?t" by code_simp+
  have o1: "occurs True ''Bill Clinton'' ?w1" by code_simp
  have o2: "occurs False ''Trump'' ''Trump''" by code_simp
  have r1: "reached (compiled ?L ''gi'') ?t1 (length ''He met '')" by code_simp
  have r2: "reached (compiled ?es ''g'') ?t2 (length ''trump met '')" by code_simp
  have q: "applyPattern ?env ?t2 (mainPattern ?env) False = Some (False, [TextNode ?t2], compiled ?L ''gi'')"
    by code_simp
  have h1: "(\<forall>x\<in>set ?L. well_formed x) \<and> ?bc \<in> set ?L \<and> occurs True (name ?bc) ?w1
            \<and> reached (mainPattern ?env) (''He met '' @ ?w1 @ '' and Trump.'') (length ''He met '')"
    using wbc o1 r1 by simp
  have h2: "Some ?es = Some ?es \<and> (\<forall>x\<in>set ?es. well_formed x) \<and> ?t \<in> set ?es
            \<and> occurs False (name ?t) ''Trump''
            \<and> applyPattern ?env (''trump met '' @ ''Trump'' @ ''.'') (mainPattern ?env) False
                = Some (False, [TextNode ?t2], compiled ?L ''gi'')
            \<and> csPattern ?env = Some (compiled ?es ''g'')
            \<and> reached (compiled ?es ''g'') (''trump met '' @ ''Trump'' @ ''.'') (length ''trump met '')"
    using wt o2 r2 q by simp
  note b = th[THEN conjunct2, THEN conjunct1, rule_format, OF h1]
  note c = th[THEN conjunct2, THEN conjunct2, THEN conjunct1, rule_format, OF h2]
  have p: "applyPattern ?env ''Bill Clinton met Trump'' (mainPattern ?env) False
             = Some (True, [createHighlight ''Bill Clinton'' ''Bill_Clinton'', TextNode '' met Trump''], compiled ?L ''gi'')"
    by code_simp
  note d = th[THEN conjunct2, THEN conjunct2, THEN conjunct2, rule_format, OF p, THEN conjunct1]
  from i s a wbc o1 r1 b wt o2 r2 c d show ?thesis by simp
qed

text \<open>
  Counterexamples to C6 as stated. \<open>Trump\<close> stands in its exact casing, but the pass
  of the main pattern has replaced the text node, so the case-sensitive pattern is not
  applied and the occurrence is not highlighted. The other three show what the conditions
  of parts (2) and (3) are for: a name of the main list that begins inside an earlier
  match is not highlighted; a name with two spaces is matched in every casing and never
  resolved; nor is a name whose anchor is empty.
\<close>

theorem case_sensitivity_counterexample:
  "scan_text [\<lparr>name = ''Bill Clinton'', anchor = ''Bill_Clinton''\<rparr>] (Some [\<lparr>name = ''Trump'', anchor = ''Donald_Trump''\<rparr>])
      ''Bill Clinton met Trump''
     = Some [createHighlight ''Bill Clinton'' ''Bill_Clinton'', TextNode '' met Trump'']
   \<and> scan_text [\<lparr>name = ''JJ Abrams'', anchor = ''JJ_Abrams''\<rparr>, \<lparr>name = ''JJ'', anchor = ''JJ_X''\<rparr>]
      None ''jjj abrams''
     = Some [createHighlight ''jj'' ''JJ_X'', TextNode ''j abrams'']
   \<and> scan_text [\<lparr>name = ''Bill  Clinton'', anchor = ''Bill_Clinton''\<rparr>] None ''bill  clinton''
     = Some [TextNode ''bill  clinton'']
   \<and> scan_text [\<lparr>name = ''Bill Clinton'', anchor = ''Bill_Clinton''\<rparr>] (Some [\<lparr>name = ''Trump'', anchor = []\<rparr>])
      ''He met Trump''
     = Some [TextNode ''He met Trump'']"
  by code_simp

text \<open>
  Claim C7, as amended. \<^verbatim>\<open>makePattern\<close> keeps every entry (an empty list gives one empty
  alternative). The loop of \<^verbatim>\<open>applyPattern\<close> ends, for every text, exactly when the list is
  not empty and has no empty name.
\<close>

theorem termination_needs_nonempty_names:
  assumes "makePattern nameList flags = Some rx" and "CHR ''g'' \<in> set flags"
  shows "length (alts rx) = max 1 (length nameList)
       \<and> ((\<exists>r. applyPattern env text rx caseSensitive = Some r)
            \<longleftrightarrow> nameList \<noteq> [] \<and> (\<forall>e\<in>set nameList. name e \<noteq> []))"
proof -
  from assms(1) have rx: "rx = compiled nameList flags"
    by (simp add: makePattern_compiled)
  have "(\<exists>r. applyPattern env text rx caseSensitive = Some r) \<longleftrightarrow> [] \<notin> set (alts rx)"
    using assms(2) by (intro applyPattern_terminates_iff) (simp_all add: rx)
  then show ?thesis
    by (auto simp: rx length_compiled_alts empty_alt_iff)
qed

text \<open>Witness for C7.\<close>

theorem termination_needs_nonempty_names_witness:
  "makePattern [\<lparr>name = ''Bill'', anchor = ''Bill_X''\<rparr>] ''gi''
      = Some (compiled [\<lparr>name = ''Bill'', anchor = ''Bill_X''\<rparr>] ''gi'')
   \<and> CHR ''g'' \<in> set ''gi''
   \<and> (\<exists>r. applyPattern
             \<lparr>mainPattern = compiled [\<lparr>name = ''Bill'', anchor = ''Bill_X''\<rparr>] ''gi'', csPattern = None,
              anchorMapCI = build_anchorMapCI [\<lparr>name = ''Bill'', anchor = ''Bill_X''\<rparr>],
              anchorMapCS = Map.empty\<rparr>
             ''Bill and bill'' (compiled [\<lparr>name = ''Bill'', anchor = ''Bill_X''\<rparr>] ''gi'') False = Some r)"
proof -
  have m: "makePattern [\<lparr>name = ''Bill'', anchor = ''Bill_X''\<rparr>] ''gi''
      = Some (compiled [\<lparr>name = ''Bill'', anchor = ''Bill_X''\<rparr>] ''gi'')"
    by (rule makePattern_compiled)
  have g: "CHR ''g'' \<in> set ''gi''" by simp
  from termination_needs_nonempty_names[OF m g] m g show ?thesis by simp
qed

text \<open>
  Counterexample to C7 as stated: an entry with the empty name is not rejected, the
  pattern matches the empty text at every position, and the scan of the one-character
  text never ends.
\<close>

theorem empty_name_counterexample:
  "scan_text [\<lparr>name = [], anchor = ''X''\<rparr>] None ''a'' = None"
proof -
  let ?rx = "compiled [\<lparr>name = [], anchor = ''X''\<rparr>] ''gi''"
  have "[] \<in> set (alts ?rx)" by (simp add: empty_alt_iff)
  then have "\<And>env. \<not> (\<exists>r. applyPattern env ''a'' ?rx False = Some r)"
    by (subst applyPattern_terminates_iff) simp_all
  then have "\<And>env. applyPattern env ''a'' ?rx False = None"
    by (metis option.exhaust)
  then show ?thesis
    by (simp add: scan_text_def init_eq highlightTextNode_def)
qed




text \<open>
  Claim C9 (the two variants are equivalent) fails: the older variant replaces
  backslash-space instead of space, so its pattern wants exactly one space between the
  words; with two spaces in the text it leaves the node alone where the newer one
  highlights. And where the lookup misses (a name with two spaces), the older variant
  makes a marker with the address ending in \<^verbatim>\<open>undefined\<close>, the newer one none.
\<close>

theorem old_variant_differs:
  "old_scan_text [\<lparr>name = ''Bill Clinton'', anchor = ''Bill_Clinton''\<rparr>] ''Bill  Clinton''
     = Some [TextNode ''Bill  Clinton'']
   \<and> scan_text [\<lparr>name = ''Bill Clinton'', anchor = ''Bill_Clinton''\<rparr>] None ''Bill  Clinton''
     = Some [createHighlight ''Bill  Clinton'' ''Bill_Clinton'']
   \<and> old_scan_text [\<lparr>name = ''Bill  Clinton'', anchor = ''Bill_Clinton''\<rparr>] ''Bill  Clinton''
     = Some [createHighlight ''Bill  Clinton'' ''undefined'']
   \<and> scan_text [\<lparr>name = ''Bill  Clinton'', anchor = ''Bill_Clinton''\<rparr>] None ''Bill  Clinton''
     = Some [TextNode ''Bill  Clinton'']"
  by code_simp



end
